theory Spec2Isabelle
  imports Complex_Main "HOL-Library.AList"
begin

section \<open>Python values used by the verification engine\<close>

text \<open>
  Exceptions are values.  Every \<open>raise\<close> of the source that the modelled functions can reach
  is a constructor; \<open>str_exn\<close> is Python's \<open>str(e)\<close>.
\<close>

datatype exn =
    ValueError string
  | KeyError string
  | AttributeError string
  | IndexError string
  | UnboundLocalError string
  | ZeroDivisionError string
  | WebDriverException string

fun str_exn :: "exn \<Rightarrow> string" where
  "str_exn (ValueError m) = m"
| "str_exn (KeyError m) = m"
| "str_exn (AttributeError m) = m"
| "str_exn (IndexError m) = m"
| "str_exn (UnboundLocalError m) = m"
| "str_exn (ZeroDivisionError m) = m"
| "str_exn (WebDriverException m) = m"

text \<open>Values stored in the \<open>details\<close> dictionary of a result (\<open>Dict[str, Any]\<close>).\<close>

datatype pyval =
    PStr string
  | PInt int
  | PBool bool
  | PNone
  | PList "string list"
  | PDict "(string \<times> pyval) list"

type_synonym pydict = "(string \<times> pyval) list"

text \<open>\<open>str(n)\<close> for a Python int.\<close>

fun str_nat :: "nat \<Rightarrow> string" where
  "str_nat n =
     (if n < 10 then [char_of (48 + n)]
      else str_nat (n div 10) @ [char_of (48 + n mod 10)])"

definition str_int :: "int \<Rightarrow> string" where
  "str_int i = (if i < 0 then CHR ''-'' # str_nat (nat (- i)) else str_nat (nat i))"

text \<open>\<open>s.split(sep)\<close> for a one-character separator: the list of the pieces between separators.\<close>

fun split_chr :: "char \<Rightarrow> string \<Rightarrow> string list" where
  "split_chr c [] = [[]]"
| "split_chr c (x # xs) =
     (if x = c then [] # split_chr c xs
      else (case split_chr c xs of
              [] \<Rightarrow> [[x]]
            | p # ps \<Rightarrow> (x # p) # ps))"

text \<open>
  \<open>_, domain = email.split('@')\<close>: the unpacking raises \<open>ValueError\<close> unless the address has
  exactly one \<open>@\<close>.
\<close>

definition split_domain :: "string \<Rightarrow> exn + string" where
  "split_domain addr =
     (case split_chr CHR ''@'' addr of
        [_, domain] \<Rightarrow> Inr domain
      | [_] \<Rightarrow> Inl (ValueError ''not enough values to unpack (expected 2, got 1)'')
      | _ \<Rightarrow> Inl (ValueError ''too many values to unpack (expected 2)''))"

section \<open>Verification results\<close>

text \<open>The four categories are the module constants of \<open>verifier1.py\<close>; a category is a string.\<close>

definition VALID :: string where "VALID = ''valid''"
definition INVALID :: string where "INVALID = ''invalid''"
definition RISKY :: string where "RISKY = ''risky''"
definition CUSTOM :: string where "CUSTOM = ''custom''"

lemmas category_defs = VALID_def INVALID_def RISKY_def CUSTOM_def

text \<open>
  \<open>@dataclass EmailVerificationResult\<close>.  The timestamp is the clock reading at construction
  (the source formats it as a string); the clock counts microseconds, the resolution of
  \<open>datetime\<close>.
\<close>

record EmailVerificationResult =
  email :: string
  category :: string
  reason :: string
  provider :: string
  details :: "pydict option"
  timestamp :: int

definition to_dict :: "EmailVerificationResult \<Rightarrow> pydict" where
  "to_dict r =
     [(''email'', PStr (email r)), (''category'', PStr (category r)),
      (''reason'', PStr (reason r)), (''provider'', PStr (provider r)),
      (''details'', (case details r of None \<Rightarrow> PNone | Some d \<Rightarrow> PDict d)),
      (''timestamp'', PInt (timestamp r))]"

section \<open>Rate limiter\<close>

text \<open>
  \<open>class RateLimiter\<close>.  \<open>request_history\<close> and \<open>backoff_times\<close> are the two dictionaries
  keyed by domain; times are microseconds, so \<open>timedelta(seconds=w)\<close> is \<open>w * 1000000\<close>.
  Each method runs under the limiter's lock and is given the clock reading \<open>now\<close> of its
  \<open>datetime.now()\<close> calls.
\<close>

record RateLimiter =
  max_requests :: int
  time_window :: int
  request_history :: "string \<Rightarrow> int list option"
  backoff_times :: "string \<Rightarrow> int option"

definition RateLimiter_init :: "int \<Rightarrow> int \<Rightarrow> RateLimiter" where
  "RateLimiter_init mr tw =
     \<lparr>max_requests = mr, time_window = tw,
      request_history = (\<lambda>_. None), backoff_times = (\<lambda>_. None)\<rparr>"

text \<open>The engine builds its limiter from the settings, whose defaults are 10 and 60.\<close>

definition default_rate_limiter :: RateLimiter where
  "default_rate_limiter = RateLimiter_init 10 60"

definition timedelta_seconds :: "int \<Rightarrow> int" where
  "timedelta_seconds s = s * 1000000"

definition is_rate_limited :: "RateLimiter \<Rightarrow> string \<Rightarrow> int \<Rightarrow> bool \<times> RateLimiter" where
  "is_rate_limited rl domain now =
     (case (case backoff_times rl domain of
              Some until \<Rightarrow>
                if now < until then Inl True
                else Inr (rl\<lparr>backoff_times := (backoff_times rl)(domain := None)\<rparr>)
            | None \<Rightarrow> Inr rl) of
        Inl b \<Rightarrow> (b, rl)
      | Inr rl1 \<Rightarrow>
          (case request_history rl1 domain of
             None \<Rightarrow> (False, rl1\<lparr>request_history := (request_history rl1)(domain \<mapsto> [])\<rparr>)
           | Some ts \<Rightarrow>
               (let kept = filter (\<lambda>t. now - t < timedelta_seconds (time_window rl1)) ts
                in (int (length kept) \<ge> max_requests rl1,
                    rl1\<lparr>request_history := (request_history rl1)(domain \<mapsto> kept)\<rparr>))))"

definition add_request :: "RateLimiter \<Rightarrow> string \<Rightarrow> int \<Rightarrow> RateLimiter" where
  "add_request rl domain now =
     (let ts = (case request_history rl domain of None \<Rightarrow> [] | Some ts \<Rightarrow> ts)
      in rl\<lparr>request_history := (request_history rl)(domain \<mapsto> ts @ [now])\<rparr>)"

definition set_backoff :: "RateLimiter \<Rightarrow> string \<Rightarrow> int \<Rightarrow> int \<Rightarrow> RateLimiter" where
  "set_backoff rl domain seconds now =
     rl\<lparr>backoff_times := (backoff_times rl)(domain \<mapsto> now + timedelta_seconds seconds)\<rparr>"

text \<open>
  \<open>max(0, int(remaining))\<close>: \<open>int\<close> truncates towards zero, so a negative remainder gives 0
  either way and a positive one is rounded down.
\<close>

definition get_backoff_time :: "RateLimiter \<Rightarrow> string \<Rightarrow> int \<Rightarrow> int" where
  "get_backoff_time rl domain now =
     (case backoff_times rl domain of
        Some until \<Rightarrow> max 0 ((until - now) div 1000000)
      | None \<Rightarrow> 0)"

text \<open>The two conditions of the limiter's invariant, read off a limiter state.\<close>

definition in_backoff :: "RateLimiter \<Rightarrow> string \<Rightarrow> int \<Rightarrow> bool" where
  "in_backoff rl domain now =
     (case backoff_times rl domain of Some until \<Rightarrow> now < until | None \<Rightarrow> False)"

definition recent_requests :: "RateLimiter \<Rightarrow> string \<Rightarrow> int \<Rightarrow> nat" where
  "recent_requests rl domain now =
     (case request_history rl domain of
        None \<Rightarrow> 0
      | Some ts \<Rightarrow> length (filter (\<lambda>t. now - t < timedelta_seconds (time_window rl)) ts))"

section \<open>The engine: environment, state and instrumentation\<close>

text \<open>
  What one SMTP session with an MX host ends in, as \<open>verify_smtp\<close> distinguishes it:
  \<open>Reply code message\<close> when the session ran through \<open>smtp.quit()\<close> and \<open>RCPT TO\<close> was
  answered with \<open>(code, message)\<close>; \<open>NetworkError\<close> for \<open>socket.timeout\<close> or
  \<open>ConnectionRefusedError\<close> (retried); \<open>SmtpError\<close> for any other \<open>socket.error\<close> or
  \<open>SMTPException\<close> (next MX).
\<close>

datatype smtp_outcome = Reply int string | NetworkError | SmtpError

text \<open>
  What one POST to \<open>GetCredentialType\<close> ends in: a response with its status code and the two
  fields of the JSON body the code reads (\<open>IfExistsResult\<close>, \<open>ThrottleStatus\<close>), a connection
  error or timeout (retried), or any other exception (caught by the outer handler).
\<close>

datatype http_outcome = HttpResponse int "int option" "int option" | HttpConnError | HttpFailure

text \<open>
  What a browser session of \<open>_verify_login\<close> ends in.  Every \<open>return\<close> of that function
  builds a result whose category is one of the four constants, with a reason and details
  read off the page; creating the driver may raise.  \<open>lo_page_classified\<close> tells the
  \<open>return\<close> statements that classify the page shown after the address was submitted
  (those after the wait that follows the click, the ones of \<open>_verify_google_email\<close> and
  \<open>_verify_yahoo_email\<close> among them) from the earlier ones (no address field, no next
  button, click failed) and from the two \<open>except\<close> clauses.
\<close>

datatype verdict = Valid | Invalid | Risky | Custom

fun category_of :: "verdict \<Rightarrow> string" where
  "category_of Valid = VALID"
| "category_of Invalid = INVALID"
| "category_of Risky = RISKY"
| "category_of Custom = CUSTOM"

record login_outcome =
  lo_verdict :: verdict
  lo_reason :: string
  lo_details :: pydict
  lo_page_classified :: bool

text \<open>
  Instrumentation: the engine state carries a trace of the limiter calls, sleeps and probe
  actions performed, in order.  The source has no such list; it is what makes
  "a probe ran" and "the limiter was consulted" observable.
\<close>

datatype event =
    RL_check string
  | RL_backoff string
  | Sleep int
  | RL_record string
  | DnsLookup string
  | SmtpSession string string smtp_outcome
  | HttpPost string http_outcome
  | BrowserSession string string string

text \<open>
  The settings and the outside world during one call.  \<open>smtp_session rcpt mx k\<close> is the outcome
  of attempt \<open>k\<close> with MX host \<open>mx\<close> for recipient \<open>rcpt\<close>; \<open>api_post email k\<close> that of
  attempt \<open>k\<close> of the POST; \<open>browser_session email provider url browser\<close> that of the login
  form; \<open>random_smtp\<close> and \<open>random_api\<close> are the 16 characters drawn by
  \<open>random.choices\<close> in \<open>check_catch_all\<close> and \<open>check_microsoft_api_catch_all\<close>.
\<close>

record env =
  catch_all_detection :: bool
  microsoft_api :: bool
  verification_loop_enabled :: bool
  browsers :: "string list"
  blacklisted_domains :: "string list"
  skip_domains :: "string list"
  dns_resolve :: "string \<Rightarrow> string list option"
  smtp_session :: "string \<Rightarrow> string \<Rightarrow> nat \<Rightarrow> smtp_outcome"
  api_post :: "string \<Rightarrow> nat \<Rightarrow> http_outcome"
  browser_session :: "string \<Rightarrow> string \<Rightarrow> string \<Rightarrow> string \<Rightarrow> exn + login_outcome"
  random_smtp :: string
  random_api :: string

text \<open>
  The state of \<open>ImprovedLoginVerifier\<close> together with the files it writes.
  \<open>csv_files\<close> are the rows of \<open>results/data/<category>_emails.csv\<close> and \<open>data_files\<close> the
  rows of \<open>./data/{Valid,Invalid,Risky,Custom}.csv\<close>, both keyed by the lower-case category
  and without their header row (the files and headers are created at start-up).  A CSV row
  read back is the row written.  The last column of a result row is \<open>str(details)\<close>, kept here
  as the dictionary it prints (empty for the empty string).  \<open>clock\<close> is the time in
  microseconds; only \<open>time.sleep\<close> of the rate-limit gate advances it.  The history log and
  the logger are left out: nothing read by the modelled functions depends on them.
\<close>

type_synonym csv_row = "string \<times> string \<times> int \<times> string \<times> pydict"

record engine =
  result_cache :: "string \<Rightarrow> EmailVerificationResult option"
  mx_cache :: "string \<Rightarrow> string list option"
  rate_limiter :: RateLimiter
  csv_files :: "string \<Rightarrow> csv_row list"
  data_files :: "string \<Rightarrow> string list"
  clock :: int
  trace :: "event list"

definition mk_result ::
  "string \<Rightarrow> string \<Rightarrow> string \<Rightarrow> string \<Rightarrow> pydict option \<Rightarrow> engine \<Rightarrow> EmailVerificationResult" where
  "mk_result e c r p d s =
     \<lparr>email = e, category = c, reason = r, provider = p, details = d, timestamp = clock s\<rparr>"

subsection \<open>The rate-limit gate of a probe\<close>

text \<open>
  The same lines open \<open>verify_email_smtp\<close>, \<open>verify_microsoft_api\<close> and \<open>_verify_login\<close>:
  \<^verbatim>\<open>
  if self.rate_limiter.is_rate_limited(domain):
      wait_time = self.rate_limiter.get_backoff_time(domain)
      time.sleep(wait_time)
  self.rate_limiter.add_request(domain)
  \<close>
\<close>

definition rate_limit_gate :: "string \<Rightarrow> engine \<Rightarrow> engine" where
  "rate_limit_gate domain s =
     (let (limited, rl1) = is_rate_limited (rate_limiter s) domain (clock s);
          s1 = s\<lparr>rate_limiter := rl1, trace := trace s @ [RL_check domain]\<rparr>;
          s2 = (if limited then
                  (let wait_time = get_backoff_time (rate_limiter s1) domain (clock s1)
                   in s1\<lparr>clock := clock s1 + timedelta_seconds wait_time,
                         trace := trace s1 @ [RL_backoff domain, Sleep wait_time]\<rparr>)
                else s1)
      in s2\<lparr>rate_limiter := add_request (rate_limiter s2) domain (clock s2),
            trace := trace s2 @ [RL_record domain]\<rparr>)"

section \<open>DNS resolver\<close>

definition lower_chr :: "char \<Rightarrow> char" where
  "lower_chr c =
     (if (65::nat) \<le> of_char c \<and> of_char c \<le> (90::nat)
      then char_of (of_char c + (32::nat)) else c)"

definition py_lower :: "string \<Rightarrow> string" where
  "py_lower s = map lower_chr s"

definition rstrip_dot :: "string \<Rightarrow> string" where
  "rstrip_dot s = rev (dropWhile (\<lambda>c. c = CHR ''.'') (rev s))"

text \<open>
  \<open>get_mx_records\<close>: the cache first; a successful lookup is normalised and cached; a failed
  lookup gives the empty list and is not cached.
\<close>

definition get_mx_records :: "env \<Rightarrow> string \<Rightarrow> engine \<Rightarrow> string list \<times> engine" where
  "get_mx_records E domain s =
     (case mx_cache s domain of
        Some mx_servers \<Rightarrow> (mx_servers, s)
      | None \<Rightarrow>
          (case dns_resolve E domain of
             Some records \<Rightarrow>
               (let mx_servers = map (\<lambda>x. py_lower (rstrip_dot x)) records
                in (mx_servers,
                    s\<lparr>mx_cache := (mx_cache s)(domain \<mapsto> mx_servers),
                      trace := trace s @ [DnsLookup domain]\<rparr>))
           | None \<Rightarrow> ([], s\<lparr>trace := trace s @ [DnsLookup domain]\<rparr>)))"

section \<open>SMTP probe\<close>

record smtp_result =
  is_deliverable :: bool
  smtp_check :: bool
  smtp_reason :: "string option"
  mx_used :: "string option"

definition smtp_result_dict :: "smtp_result \<Rightarrow> pydict" where
  "smtp_result_dict r =
     [(''is_deliverable'', PBool (is_deliverable r)), (''smtp_check'', PBool (smtp_check r)),
      (''reason'', (case smtp_reason r of None \<Rightarrow> PNone | Some m \<Rightarrow> PStr m)),
      (''mx_used'', (case mx_used r of None \<Rightarrow> PNone | Some m \<Rightarrow> PStr m))]"

text \<open>How the body of the loop over one MX host is left: by \<open>return\<close> or by \<open>break\<close>.\<close>

datatype 'a loop_exit = Return 'a | Break 'a

definition max_retries :: nat where "max_retries = 3"

text \<open>
  The \<open>while retry_count < max_retries\<close> loop for one MX host.  The second component lists
  the sessions held, in order.
\<close>

function try_mx ::
  "(nat \<Rightarrow> smtp_outcome) \<Rightarrow> string \<Rightarrow> string \<Rightarrow> nat \<Rightarrow> smtp_result
     \<Rightarrow> smtp_result loop_exit \<times> event list" where
  "try_mx sess rcpt mx retry_count result =
     (if retry_count < max_retries then
        (let ev = SmtpSession rcpt mx (sess retry_count) in
         case sess retry_count of
           Reply code message \<Rightarrow>
             (let result1 = result\<lparr>mx_used := Some mx\<rparr> in
              if code = 250 then
                (Return (result1\<lparr>is_deliverable := True, smtp_check := True\<rparr>), [ev])
              else if code = 550 then
                (Return (result1\<lparr>smtp_reason := Some ''Mailbox unavailable''\<rparr>), [ev])
              else
                (Break (result1\<lparr>smtp_reason :=
                          Some (''SMTP Error: '' @ str_int code @ '' - '' @ message)\<rparr>), [ev]))
         | NetworkError \<Rightarrow>
             (if retry_count + 1 < max_retries
              then (let (x, evs) = try_mx sess rcpt mx (retry_count + 1) result
                    in (x, ev # evs))
              else (Break result, [ev]))
         | SmtpError \<Rightarrow> (Break result, [ev]))
      else (Break result, []))"
  by pat_completeness auto
termination
  by (relation "measure (\<lambda>(sess, rcpt, mx, retry_count, result). max_retries - retry_count)")
     auto

declare try_mx.simps [simp del]

text \<open>The \<open>for mx in mx_servers\<close> loop.\<close>

fun mx_loop ::
  "(string \<Rightarrow> nat \<Rightarrow> smtp_outcome) \<Rightarrow> string \<Rightarrow> string list \<Rightarrow> smtp_result
     \<Rightarrow> smtp_result loop_exit \<times> event list" where
  "mx_loop sess rcpt [] result = (Break result, [])"
| "mx_loop sess rcpt (mx # mxs) result =
     (case try_mx (sess mx) rcpt mx 0 result of
        (Return r, evs) \<Rightarrow> (Return r, evs)
      | (Break r, evs) \<Rightarrow>
          (let (x, evs1) = mx_loop sess rcpt mxs r in (x, evs @ evs1)))"

definition verify_smtp ::
  "(string \<Rightarrow> string \<Rightarrow> nat \<Rightarrow> smtp_outcome) \<Rightarrow> string \<Rightarrow> string list
     \<Rightarrow> smtp_result \<times> event list" where
  "verify_smtp sess addr mx_servers =
     (let result = \<lparr>is_deliverable = False, smtp_check = False,
                    smtp_reason = None, mx_used = None\<rparr> in
      if mx_servers = [] then (result\<lparr>smtp_reason := Some ''No MX records found''\<rparr>, [])
      else
        (case mx_loop (sess addr) addr mx_servers result of
           (Return r, slog) \<Rightarrow> (r, slog)
         | (Break r, slog) \<Rightarrow>
             (if (case smtp_reason r of None \<Rightarrow> True | Some m \<Rightarrow> m = [])
              then (r\<lparr>smtp_reason :=
                        Some ''All MX servers rejected connection or verification''\<rparr>, slog)
              else (r, slog))))"

definition check_catch_all :: "env \<Rightarrow> string \<Rightarrow> engine \<Rightarrow> bool \<times> engine" where
  "check_catch_all E domain s =
     (if \<not> catch_all_detection E then (False, s)
      else
        (let test_email = random_smtp E @ ''@'' @ domain;
             (mx_records, s1) = get_mx_records E domain s
         in if mx_records = [] then (False, s1)
            else (let (result, slog) = verify_smtp (smtp_session E) test_email mx_records
                  in (is_deliverable result, s1\<lparr>trace := trace s1 @ slog\<rparr>))))"

definition opt_str :: "string option \<Rightarrow> string" where
  "opt_str x = (case x of None \<Rightarrow> ''None'' | Some m \<Rightarrow> m)"

definition verify_email_smtp ::
  "env \<Rightarrow> string \<Rightarrow> engine \<Rightarrow> (exn + EmailVerificationResult) \<times> engine" where
  "verify_email_smtp E addr s =
     (case split_domain addr of
        Inl e \<Rightarrow> (Inl e, s)
      | Inr domain \<Rightarrow>
          (let s1 = rate_limit_gate domain s;
               (mx_records, s2) = get_mx_records E domain s1
           in if mx_records = [] then
                (Inr (mk_result addr INVALID ''Domain has no mail servers'' domain None s2), s2)
              else
                (let (is_catch_all, s3) = check_catch_all E domain s2;
                     (smtp_result, slog) = verify_smtp (smtp_session E) addr mx_records;
                     s4 = s3\<lparr>trace := trace s3 @ slog\<rparr>
                 in if is_deliverable smtp_result then
                      (if is_catch_all then
                         (Inr (mk_result addr RISKY ''Domain has catch-all configuration'' domain
                                 (Some [(''smtp_result'', PDict (smtp_result_dict smtp_result)),
                                        (''is_catch_all'', PBool True)]) s4), s4)
                       else
                         (Inr (mk_result addr VALID ''Email verified via SMTP'' domain
                                 (Some (smtp_result_dict smtp_result)) s4), s4))
                    else if smtp_reason smtp_result = Some ''Mailbox unavailable'' then
                      (Inr (mk_result addr RISKY
                              ''Mailbox unavailable (may not indicate invalid email)'' domain
                              (Some (smtp_result_dict smtp_result)) s4), s4)
                    else
                      (Inr (mk_result addr INVALID
                              (''Email verification failed: '' @ opt_str (smtp_reason smtp_result))
                              domain (Some (smtp_result_dict smtp_result)) s4), s4))))"

section \<open>Provider identification\<close>

text \<open>The login URLs of \<open>provider_login_urls\<close>, the two long ones first.\<close>

definition gmail_login_url :: string where
  "gmail_login_url =
     ''https://accounts.google.com/v3/signin/identifier?checkedDomains=youtube&continue'' @
     ''=https%3A%2F%2Faccounts.google.com%2F&ddm=1&flowEntry=ServiceLogin&flowName=Glif'' @
     ''WebSignIn&followup=https%3A%2F%2Faccounts.google.com%2F&ifkv=ASSHykqZwmsZ-Y8kMUy'' @
     ''1FaZIF_roUjdswunM1zU1MHwMol0ScsWw6Ccfrnl6CF5AGNdJYnPIXWCAag&pstMsg=1&dsh=S-61850'' @
     ''4277%3A1741397881564214''"

definition outlook_login_url :: string where
  "outlook_login_url =
     ''https://login.microsoftonline.com/common/oauth2/v2.0/authorize?scope=service%3A%'' @
     ''3Aaccount.microsoft.com%3A%3AMBI_SSL+openid+profile+offline_access&response_type'' @
     ''=code&client_id=81feaced-5ddd-41e7-8bef-3e20a2689bb7&redirect_uri=https%3A%2F%2F'' @
     ''account.microsoft.com%2Fauth%2Fcomplete-signin-oauth&client-request-id=91a4ca34-'' @
     ''664d-4f85-b023-b815182d057e&x-client-SKU=MSAL.Desktop&x-client-Ver=4.66.1.0&x-cl'' @
     ''ient-OS=Windows+Server+2019+Datacenter&prompt=login&client_info=1&state=H4sIAAAA'' @
     ''AAAEAA3OR4KCMAAAwL945QBoKB48gAhGTUKVcpOyUgIIIlnz-t15wWxOkdgndzKKgzSP0sPvj6ylebka'' @
     ''JnlzK-s0zslzEDxJW0UhHvEoa8gondYS2LTTFj8N67QGK0Xnl7SoUWRXezriNbboRIRAH11HDqhyTBou'' @
     ''vKsZMdgD_EwXpH2sZhExKJfvafuKxXbvtGmo4JABCBsFdIXfz1A5ReoS5TaufobXzFD27PSPwvn1JjnT'' @
     ''MNvUIxAhZIvJMrxonWBPzz_q-cwoGpZMT_dt0HJwoQjGbICKmRvY9fjN_a9X83yN15D0QONFuUsucuoQ'' @
     ''rfbvd--XVEViWqUbRJXAOukcyRNmjUoyrhYWNEAvdQbMsp2XArl4F9vEzh95s3fGb2Q-Hs2VHQ6bP6JJ'' @
     ''ZGZaAQAA&msaoauth2=true&lc=1036&sso_reload=true''"

definition provider_login_urls :: "(string \<times> string) list" where
  "provider_login_urls =
     [(''gmail.com'', gmail_login_url),
      (''googlemail.com'', ''https://accounts.google.com/v3/signin/identifier?flowName=GlifWebSignIn''),
      (''outlook.com'', outlook_login_url),
      (''hotmail.com'', outlook_login_url),
      (''live.com'', ''https://login.live.com''),
      (''yahoo.com'', ''https://login.yahoo.com''),
      (''aol.com'', ''https://login.aol.com''),
      (''protonmail.com'', ''https://mail.proton.me/login''),
      (''zoho.com'', ''https://accounts.zoho.com/signin''),
      (''mail.ru'', ''https://account.mail.ru/login''),
      (''yandex.ru'', ''https://passport.yandex.ru/auth''),
      (''microsoft.com'', ''https://login.microsoftonline.com''),
      (''office365.com'', ''https://login.microsoftonline.com'')]"

text \<open>\<open>sub in s\<close> for strings.\<close>

fun contains :: "string \<Rightarrow> string \<Rightarrow> bool" where
  "contains sub [] = (sub = [])"
| "contains sub (x # xs) = (take (length sub) (x # xs) = sub \<or> contains sub xs)"

text \<open>The \<open>for mx in mx_records\<close> loop of \<open>identify_provider\<close>.\<close>

fun provider_of_mx :: "string \<Rightarrow> string list \<Rightarrow> string \<times> string option" where
  "provider_of_mx domain [] = (''custom'', None)"
| "provider_of_mx domain (mx # mxs) =
     (if contains ''google'' mx \<or> contains ''gmail'' mx then
        (if domain = ''gmail.com'' then (''gmail.com'', map_of provider_login_urls ''gmail.com'')
         else (''customGoogle'', map_of provider_login_urls ''gmail.com''))
      else if contains ''outlook'' mx \<or> contains ''microsoft'' mx \<or> contains ''office365'' mx
        then (''outlook.com'', map_of provider_login_urls ''outlook.com'')
      else if contains ''yahoo'' mx then (''yahoo.com'', map_of provider_login_urls ''yahoo.com'')
      else if contains ''protonmail'' mx \<or> contains ''proton.me'' mx
        then (''protonmail.com'', map_of provider_login_urls ''protonmail.com'')
      else if contains ''zoho'' mx then (''zoho.com'', map_of provider_login_urls ''zoho.com'')
      else if contains ''mail.ru'' mx then (''mail.ru'', map_of provider_login_urls ''mail.ru'')
      else if contains ''yandex'' mx then (''yandex.ru'', map_of provider_login_urls ''yandex.ru'')
      else provider_of_mx domain mxs)"

definition identify_provider ::
  "env \<Rightarrow> string \<Rightarrow> engine \<Rightarrow> (exn + string \<times> string option) \<times> engine" where
  "identify_provider E addr s =
     (case split_domain addr of
        Inl e \<Rightarrow> (Inl e, s)
      | Inr domain \<Rightarrow>
          (case map_of provider_login_urls domain of
             Some url \<Rightarrow> (Inr (domain, Some url), s)
           | None \<Rightarrow>
               (let (mx_records, s1) = get_mx_records E domain s
                in (Inr (provider_of_mx domain mx_records), s1))))"

section \<open>Syntactic validation\<close>

text \<open>
  \<open>validate_format\<close> is \<open>re.match\<close> with the pattern
  \<^verbatim>\<open>^[a-zA-Z0-9._%+-]+@[a-zA-Z0-9.-]+\.[a-zA-Z]{2,}$\<close>.
  Neither character class contains \<open>@\<close>, so a match has exactly one \<open>@\<close>; the last group
  contains no dot, so the dot before it is the last dot of the domain part.  \<open>$\<close> also
  matches just before a newline that ends the string.
\<close>

definition is_alpha :: "char \<Rightarrow> bool" where
  "is_alpha c = (let n = (of_char c :: nat) in (65 \<le> n \<and> n \<le> 90) \<or> (97 \<le> n \<and> n \<le> 122))"

definition is_alnum :: "char \<Rightarrow> bool" where
  "is_alnum c = (is_alpha c \<or> (let n = (of_char c :: nat) in 48 \<le> n \<and> n \<le> 57))"

definition local_chr :: "char \<Rightarrow> bool" where
  "local_chr c = (is_alnum c \<or> c \<in> set ''._%+-'')"

definition domain_chr :: "char \<Rightarrow> bool" where
  "domain_chr c = (is_alnum c \<or> c \<in> set ''.-'')"

definition domain_matches :: "string \<Rightarrow> bool" where
  "domain_matches dpart =
     (let tld = rev (takeWhile (\<lambda>c. c \<noteq> CHR ''.'') (rev dpart));
          front = rev (dropWhile (\<lambda>c. c \<noteq> CHR ''.'') (rev dpart))
      in front \<noteq> [] \<and> butlast front \<noteq> [] \<and> list_all domain_chr (butlast front) \<and>
         2 \<le> length tld \<and> list_all is_alpha tld)"

definition pattern_matches :: "string \<Rightarrow> bool" where
  "pattern_matches str =
     (case split_chr CHR ''@'' str of
        [loc, dpart] \<Rightarrow> loc \<noteq> [] \<and> list_all local_chr loc \<and> domain_matches dpart
      | _ \<Rightarrow> False)"

definition validate_format :: "string \<Rightarrow> bool" where
  "validate_format addr =
     (pattern_matches addr \<or>
      (addr \<noteq> [] \<and> last addr = CHR 0x0A \<and> pattern_matches (butlast addr)))"

section \<open>Result store\<close>

definition categories :: "string list" where
  "categories = [''valid'', ''invalid'', ''risky'', ''custom'']"

text \<open>
  \<open>Settings.check_email_in_data\<close>: the files are searched in the order Valid, Invalid,
  Risky, Custom; the first that has a row equal to the address gives the category.
\<close>

definition check_email_in_data :: "string \<Rightarrow> engine \<Rightarrow> string option" where
  "check_email_in_data addr s = find (\<lambda>c. addr \<in> set (data_files s c)) categories"

text \<open>
  \<open>Settings.add_email_to_data\<close>: only the file of the given category is searched before the
  row is appended.
\<close>

definition add_email_to_data :: "string \<Rightarrow> string \<Rightarrow> engine \<Rightarrow> bool \<times> engine" where
  "add_email_to_data addr cat s =
     (if py_lower cat \<notin> set categories then (False, s)
      else (let file = py_lower cat;
                exists = (addr \<in> set (data_files s file))
            in if \<not> exists
               then (True, s\<lparr>data_files := (data_files s)(file := data_files s file @ [addr])\<rparr>)
               else (True, s)))"

text \<open>
  \<open>save_result\<close>: \<open>self.csv_files[result.category]\<close> raises \<open>KeyError\<close> for a category that is
  not one of the four; a row is appended to the result file; the address is added to the data
  file.
\<close>

definition save_result :: "EmailVerificationResult \<Rightarrow> engine \<Rightarrow> (exn + unit) \<times> engine" where
  "save_result result s =
     (if category result \<notin> set categories
      then (Inl (KeyError ([CHR 0x27] @ category result @ [CHR 0x27])), s)
      else
        (let row = (email result, provider result, clock s, reason result,
                    (case details result of None \<Rightarrow> [] | Some d \<Rightarrow> d));
             s1 = s\<lparr>csv_files := (csv_files s)(category result :=
                                     csv_files s (category result) @ [row])\<rparr>;
             (ok, s2) = add_email_to_data (email result) (category result) s1
         in (Inr (), s2)))"

text \<open>
  The lines that end every branch of the strategies:
  \<^verbatim>\<open>
  with self.lock:
      self.result_cache[email] = result
  self.save_result(result)
  return result
  \<close>
\<close>

definition finish ::
  "string \<Rightarrow> EmailVerificationResult \<Rightarrow> engine \<Rightarrow> (exn + EmailVerificationResult) \<times> engine" where
  "finish addr result s =
     (let s1 = s\<lparr>result_cache := (result_cache s)(addr \<mapsto> result)\<rparr>
      in case save_result result s1 of
           (Inl e, s2) \<Rightarrow> (Inl e, s2)
         | (Inr u, s2) \<Rightarrow> (Inr result, s2))"

section \<open>Browser probe and Microsoft API probe\<close>

text \<open>
  \<open>_verify_login\<close>: the rate-limit gate, then the browser session, whose classification of
  the page is the environment's \<open>browser_session\<close>.  The results built by
  \<open>_verify_google_email\<close>, to which the pages of \<open>gmail.com\<close> and \<open>customGoogle\<close> are
  handed, carry the provider \<open>gmail.com\<close>, and those of \<open>_verify_yahoo_email\<close> the provider
  \<open>yahoo.com\<close>; every other result carries the provider the function was called with.
\<close>

definition login_provider :: "string \<Rightarrow> bool \<Rightarrow> string" where
  "login_provider prov page_classified =
     (if page_classified \<and> prov \<in> set [''gmail.com'', ''customGoogle''] then ''gmail.com''
      else if page_classified \<and> prov = ''yahoo.com'' then ''yahoo.com''
      else prov)"

definition verify_login ::
  "env \<Rightarrow> string \<Rightarrow> string \<Rightarrow> string \<Rightarrow> string \<Rightarrow> engine
     \<Rightarrow> (exn + EmailVerificationResult) \<times> engine" where
  "verify_login E addr prov login_url browser_type s =
     (case split_domain addr of
        Inl e \<Rightarrow> (Inl e, s)
      | Inr domain \<Rightarrow>
          (let s1 = rate_limit_gate domain s;
               s2 = s1\<lparr>trace := trace s1 @ [BrowserSession addr login_url browser_type]\<rparr>
           in case browser_session E addr prov login_url browser_type of
                Inl e \<Rightarrow> (Inl e, s2)
              | Inr out \<Rightarrow>
                  (Inr (mk_result addr (category_of (lo_verdict out)) (lo_reason out)
                          (login_provider prov (lo_page_classified out))
                          (Some (lo_details out)) s2), s2)))"

definition response_data :: "int option \<Rightarrow> int option \<Rightarrow> pydict" where
  "response_data ifexists throttle =
     (case ifexists of None \<Rightarrow> [] | Some v \<Rightarrow> [(''IfExistsResult'', PInt v)]) @
     (case throttle of None \<Rightarrow> [] | Some v \<Rightarrow> [(''ThrottleStatus'', PInt v)])"

text \<open>
  The retry loop around \<open>session.post\<close>: \<open>Some\<close> response, or \<open>None\<close> when the retries are
  used up or another exception reaches the outer handler.
\<close>

function api_request ::
  "(nat \<Rightarrow> http_outcome) \<Rightarrow> string \<Rightarrow> nat
     \<Rightarrow> (int \<times> int option \<times> int option) option \<times> event list" where
  "api_request post addr retry_count =
     (if retry_count < max_retries then
        (let ev = HttpPost addr (post retry_count) in
         case post retry_count of
           HttpResponse status ifexists throttle \<Rightarrow> (Some (status, ifexists, throttle), [ev])
         | HttpConnError \<Rightarrow>
             (if retry_count + 1 < max_retries
              then (let (x, evs) = api_request post addr (retry_count + 1) in (x, ev # evs))
              else (None, [ev]))
         | HttpFailure \<Rightarrow> (None, [ev]))
      else (None, []))"
  by pat_completeness auto
termination
  by (relation "measure (\<lambda>(post, addr, retry_count). max_retries - retry_count)") auto

declare api_request.simps [simp del]

definition verify_microsoft_api ::
  "env \<Rightarrow> string \<Rightarrow> engine \<Rightarrow> (exn + EmailVerificationResult option) \<times> engine" where
  "verify_microsoft_api E addr s =
     (if \<not> microsoft_api E then (Inr None, s)
      else
        (case split_domain addr of
           Inl e \<Rightarrow> (Inl e, s)
         | Inr domain \<Rightarrow>
             (let s1 = rate_limit_gate domain s;
                  (response, evs) = api_request (api_post E addr) addr 0;
                  s2 = s1\<lparr>trace := trace s1 @ evs\<rparr>
              in case response of
                   None \<Rightarrow> (Inr None, s2)
                 | Some (status, ifexists, throttle) \<Rightarrow>
                     (if status = 200 \<and> ifexists = Some 0 then
                        (Inr (Some (mk_result addr VALID ''Email address exists (Microsoft API)''
                                      ''Microsoft''
                                      (Some [(''response'',
                                              PDict (response_data ifexists throttle))]) s2)), s2)
                      else if status = 200 \<and> ifexists = Some 1 then
                        (Inr (Some (mk_result addr INVALID
                                      ''Email address does not exist (Microsoft API)''
                                      ''Microsoft''
                                      (Some [(''response'',
                                              PDict (response_data ifexists throttle))]) s2)), s2)
                      else if status = 200 \<and> throttle = Some 1 then
                        (Inr None,
                         s2\<lparr>rate_limiter := set_backoff (rate_limiter s2) domain 60 (clock s2)\<rparr>)
                      else (Inr None, s2)))))"

definition check_microsoft_api_catch_all ::
  "env \<Rightarrow> string \<Rightarrow> engine \<Rightarrow> (exn + bool) \<times> engine" where
  "check_microsoft_api_catch_all E domain s =
     (let test_email = random_api E @ ''@'' @ domain;
          valid_email = ''admin@'' @ domain
      in case verify_microsoft_api E valid_email s of
           (Inl e, s1) \<Rightarrow> (Inl e, s1)
         | (Inr valid_result, s1) \<Rightarrow>
             (case verify_microsoft_api E test_email s1 of
                (Inl e, s2) \<Rightarrow> (Inl e, s2)
              | (Inr random_result, s2) \<Rightarrow>
                  (Inr ((case valid_result of None \<Rightarrow> False | Some r \<Rightarrow> category r = VALID) \<and>
                        (case random_result of None \<Rightarrow> False | Some r \<Rightarrow> category r = VALID)),
                   s2)))"

section \<open>Provider strategies\<close>

definition definitive :: "EmailVerificationResult \<Rightarrow> bool" where
  "definitive r = (category r \<in> set [VALID, INVALID])"

definition could_not_determine :: string where
  "could_not_determine = ''Could not determine if email exists (no password prompt or error)''"

text \<open>
  The result built when a browser session stays undetermined and the strategy promotes it:
  \<open>VALID\<close>, \<open>"Email accepted (no rejection or error)"\<close>, with the details of the session.
\<close>

definition accepted_result ::
  "string \<Rightarrow> string \<Rightarrow> EmailVerificationResult \<Rightarrow> engine \<Rightarrow> EmailVerificationResult" where
  "accepted_result addr prov r s =
     mk_result addr VALID ''Email accepted (no rejection or error)'' prov (details r) s"

text \<open>
  How a \<open>for browser in browsers\<close> loop is left: the function returned a result, or the loop
  ran out, with the value of the local variable \<open>result\<close> (unbound if the loop body never ran).
\<close>

datatype loop_end = Returned EmailVerificationResult | Exhausted "EmailVerificationResult option"

definition returning ::
  "(exn + EmailVerificationResult) \<times> engine \<Rightarrow> (exn + loop_end) \<times> engine" where
  "returning x = (case x of (Inl e, s) \<Rightarrow> (Inl e, s) | (Inr r, s) \<Rightarrow> (Inr (Returned r), s))"

text \<open>\<open>xs.index(x)\<close> for an element of the list.\<close>

fun py_index :: "'a \<Rightarrow> 'a list \<Rightarrow> nat" where
  "py_index x [] = 0"
| "py_index x (y # ys) = (if x = y then 0 else Suc (py_index x ys))"

text \<open>
  Reading the local variable \<open>result\<close> after a loop: \<open>UnboundLocalError\<close> when it was never
  assigned.
\<close>

definition finish_last ::
  "string \<Rightarrow> EmailVerificationResult option \<Rightarrow> engine
     \<Rightarrow> (exn + EmailVerificationResult) \<times> engine" where
  "finish_last addr last_result s =
     (case last_result of
        None \<Rightarrow> (Inl (UnboundLocalError
                 ''cannot access local variable 'result' where it is not associated with a value''), s)
      | Some r \<Rightarrow> finish addr r s)"

subsection \<open>Microsoft: API, then browser, then SMTP\<close>

fun microsoft_browser_loop ::
  "env \<Rightarrow> string \<Rightarrow> string \<Rightarrow> string \<Rightarrow> string list \<Rightarrow> string list
     \<Rightarrow> EmailVerificationResult option \<Rightarrow> engine \<Rightarrow> (exn + loop_end) \<times> engine" where
  "microsoft_browser_loop E addr prov login_url all_browsers [] last_result s =
     (Inr (Exhausted last_result), s)"
| "microsoft_browser_loop E addr prov login_url all_browsers (b # bs) last_result s =
     (case verify_login E addr prov login_url b s of
        (Inl e, s1) \<Rightarrow> (Inl e, s1)
      | (Inr result, s1) \<Rightarrow>
          (if definitive result then returning (finish addr result s1)
           else if (category result = RISKY \<and> reason result = could_not_determine) \<or>
                   (category result = CUSTOM \<and> reason result = ''Redirected to custom login page'')
           then
             (case verify_login E addr prov ''https://login.live.com''
                     (all_browsers ! ((py_index b all_browsers + 1) mod length all_browsers)) s1 of
                (Inl e, s2) \<Rightarrow> (Inl e, s2)
              | (Inr direct_result, s2) \<Rightarrow>
                  (if definitive direct_result then returning (finish addr direct_result s2)
                   else if category direct_result = RISKY \<and>
                           reason direct_result = could_not_determine
                   then returning (finish addr (accepted_result addr prov direct_result s2) s2)
                   else microsoft_browser_loop E addr prov login_url all_browsers bs
                          (Some result) s2))
           else microsoft_browser_loop E addr prov login_url all_browsers bs (Some result) s1))"

text \<open>What follows a browser loop in three of the strategies: SMTP, else the last result.\<close>

definition smtp_then_last ::
  "env \<Rightarrow> string \<Rightarrow> EmailVerificationResult option \<Rightarrow> engine
     \<Rightarrow> (exn + EmailVerificationResult) \<times> engine" where
  "smtp_then_last E addr last_result s =
     (case verify_email_smtp E addr s of
        (Inl e, s1) \<Rightarrow> (Inl e, s1)
      | (Inr smtp_res, s1) \<Rightarrow>
          (if definitive smtp_res then finish addr smtp_res s1
           else finish_last addr last_result s1))"

definition verify_microsoft_email ::
  "env \<Rightarrow> string \<Rightarrow> string \<Rightarrow> string \<Rightarrow> string \<Rightarrow> engine
     \<Rightarrow> (exn + EmailVerificationResult) \<times> engine" where
  "verify_microsoft_email E addr prov login_url domain s =
     (case (if microsoft_api E then check_microsoft_api_catch_all E domain s
            else (Inr False, s)) of
        (Inl e, s1) \<Rightarrow> (Inl e, s1)
      | (Inr is_api_catch_all, s1) \<Rightarrow>
          (case (if \<not> is_api_catch_all then verify_microsoft_api E addr s1
                 else (Inr None, s1)) of
             (Inl e, s2) \<Rightarrow> (Inl e, s2)
           | (Inr api_result, s2) \<Rightarrow>
               (case (case api_result of
                        Some r \<Rightarrow> if definitive r then Some r else None
                      | None \<Rightarrow> None) of
                  Some r \<Rightarrow> finish addr r s2
                | None \<Rightarrow>
                    (case microsoft_browser_loop E addr prov login_url (browsers E) (browsers E)
                            None s2 of
                       (Inl e, s3) \<Rightarrow> (Inl e, s3)
                     | (Inr (Returned r), s3) \<Rightarrow> (Inr r, s3)
                     | (Inr (Exhausted last_result), s3) \<Rightarrow>
                         smtp_then_last E addr last_result s3))))"

subsection \<open>Gmail: SMTP, then browser.  Google-hosted domains: browser, then SMTP\<close>

text \<open>The browser loop is the same text in \<open>_verify_gmail_email\<close> and \<open>_verify_custom_google_email\<close>.\<close>

fun google_browser_loop ::
  "env \<Rightarrow> string \<Rightarrow> string \<Rightarrow> string \<Rightarrow> string list
     \<Rightarrow> EmailVerificationResult option \<Rightarrow> engine \<Rightarrow> (exn + loop_end) \<times> engine" where
  "google_browser_loop E addr prov login_url [] last_result s = (Inr (Exhausted last_result), s)"
| "google_browser_loop E addr prov login_url (b # bs) last_result s =
     (case verify_login E addr prov login_url b s of
        (Inl e, s1) \<Rightarrow> (Inl e, s1)
      | (Inr result, s1) \<Rightarrow>
          (if definitive result then returning (finish addr result s1)
           else if category result = RISKY \<and> reason result = could_not_determine
           then returning (finish addr (accepted_result addr prov result s1) s1)
           else google_browser_loop E addr prov login_url bs (Some result) s1))"

definition verify_gmail_email ::
  "env \<Rightarrow> string \<Rightarrow> string \<Rightarrow> string \<Rightarrow> engine
     \<Rightarrow> (exn + EmailVerificationResult) \<times> engine" where
  "verify_gmail_email E addr prov login_url s =
     (case verify_email_smtp E addr s of
        (Inl e, s1) \<Rightarrow> (Inl e, s1)
      | (Inr smtp_res, s1) \<Rightarrow>
          (if definitive smtp_res then finish addr smtp_res s1
           else
             (case google_browser_loop E addr prov login_url (browsers E) None s1 of
                (Inl e, s2) \<Rightarrow> (Inl e, s2)
              | (Inr (Returned r), s2) \<Rightarrow> (Inr r, s2)
              | (Inr (Exhausted last_result), s2) \<Rightarrow> finish_last addr last_result s2)))"

definition verify_custom_google_email ::
  "env \<Rightarrow> string \<Rightarrow> string \<Rightarrow> string \<Rightarrow> engine
     \<Rightarrow> (exn + EmailVerificationResult) \<times> engine" where
  "verify_custom_google_email E addr prov login_url s =
     (case google_browser_loop E addr prov login_url (browsers E) None s of
        (Inl e, s1) \<Rightarrow> (Inl e, s1)
      | (Inr (Returned r), s1) \<Rightarrow> (Inr r, s1)
      | (Inr (Exhausted last_result), s1) \<Rightarrow> smtp_then_last E addr last_result s1)"

subsection \<open>Unknown providers: SMTP with catch-all detection\<close>

definition verify_custom_domain_email ::
  "env \<Rightarrow> string \<Rightarrow> string \<Rightarrow> string list \<Rightarrow> engine
     \<Rightarrow> (exn + EmailVerificationResult) \<times> engine" where
  "verify_custom_domain_email E addr domain mx_records s =
     (let (is_catch_all, s1) = check_catch_all E domain s;
          (smtp_res, slog) = verify_smtp (smtp_session E) addr mx_records;
          s2 = s1\<lparr>trace := trace s1 @ slog\<rparr>;
          mxv = (''mx_records'', PList mx_records);
          result =
            (if is_deliverable smtp_res then
               (if is_catch_all then
                  mk_result addr RISKY ''Domain has catch-all configuration'' ''Custom''
                    (Some [(''smtp_result'', PDict (smtp_result_dict smtp_res)),
                           (''is_catch_all'', PBool True), mxv]) s2
                else
                  mk_result addr VALID ''Email verified via SMTP'' ''Custom''
                    (Some [(''smtp_result'', PDict (smtp_result_dict smtp_res)), mxv]) s2)
             else if smtp_reason smtp_res = Some ''Mailbox unavailable'' then
               mk_result addr RISKY ''Mailbox unavailable (may not indicate invalid email)''
                 ''Custom'' (Some [(''smtp_result'', PDict (smtp_result_dict smtp_res)), mxv]) s2
             else
               mk_result addr INVALID
                 (''Email verification failed: '' @ opt_str (smtp_reason smtp_res))
                 ''Custom'' (Some [(''smtp_result'', PDict (smtp_result_dict smtp_res)), mxv]) s2)
      in finish addr result s2)"

subsection \<open>Other known providers: browsers, then SMTP\<close>

text \<open>
  The loop of \<open>_verify_other_provider_email\<close>.  \<open>browsers[-1]\<close> is compared by value, so the
  SMTP step is taken at the first browser equal to the last one.  A loop that runs out
  without returning makes the function return \<open>None\<close>.
\<close>

fun other_browser_loop ::
  "env \<Rightarrow> string \<Rightarrow> string \<Rightarrow> string \<Rightarrow> string \<Rightarrow> string list \<Rightarrow> engine
     \<Rightarrow> (exn + EmailVerificationResult option) \<times> engine" where
  "other_browser_loop E addr prov login_url last_browser [] s = (Inr None, s)"
| "other_browser_loop E addr prov login_url last_browser (b # bs) s =
     (case verify_login E addr prov login_url b s of
        (Inl e, s1) \<Rightarrow> (Inl e, s1)
      | (Inr result, s1) \<Rightarrow>
          (if definitive result then
             (case finish addr result s1 of
                (Inl e, s2) \<Rightarrow> (Inl e, s2) | (Inr r, s2) \<Rightarrow> (Inr (Some r), s2))
           else if b = last_browser \<and> category result \<in> set [RISKY, CUSTOM] then
             (case verify_email_smtp E addr s1 of
                (Inl e, s2) \<Rightarrow> (Inl e, s2)
              | (Inr smtp_res, s2) \<Rightarrow>
                  (case finish addr (if definitive smtp_res then smtp_res else result) s2 of
                     (Inl e, s3) \<Rightarrow> (Inl e, s3) | (Inr r, s3) \<Rightarrow> (Inr (Some r), s3)))
           else other_browser_loop E addr prov login_url last_browser bs s1))"

definition verify_other_provider_email ::
  "env \<Rightarrow> string \<Rightarrow> string \<Rightarrow> string \<Rightarrow> engine
     \<Rightarrow> (exn + EmailVerificationResult option) \<times> engine" where
  "verify_other_provider_email E addr prov login_url s =
     (if verification_loop_enabled E then
        (case browsers E of
           [] \<Rightarrow> (Inr None, s)
         | b # bs \<Rightarrow> other_browser_loop E addr prov login_url (last (b # bs)) (b # bs) s)
      else
        (case browsers E of
           [] \<Rightarrow> (Inl (IndexError ''list index out of range''), s)
         | b # bs \<Rightarrow>
             (case verify_login E addr prov login_url b s of
                (Inl e, s1) \<Rightarrow> (Inl e, s1)
              | (Inr result, s1) \<Rightarrow>
                  (case finish addr result s1 of
                     (Inl e, s2) \<Rightarrow> (Inl e, s2) | (Inr r, s2) \<Rightarrow> (Inr (Some r), s2)))))"

section \<open>The engine's \<open>verify_email\<close>\<close>

definition some_result ::
  "(exn + EmailVerificationResult) \<times> engine \<Rightarrow> (exn + EmailVerificationResult option) \<times> engine" where
  "some_result x = (case x of (Inl e, s) \<Rightarrow> (Inl e, s) | (Inr r, s) \<Rightarrow> (Inr (Some r), s))"

definition microsoft_providers :: "string list" where
  "microsoft_providers =
     [''outlook.com'', ''hotmail.com'', ''live.com'', ''microsoft.com'', ''office365.com'']"

text \<open>Step 3 and 4 of \<open>verify_email\<close>: identify the provider and run its strategy.\<close>

definition run_strategy ::
  "env \<Rightarrow> string \<Rightarrow> string \<Rightarrow> string list \<Rightarrow> engine
     \<Rightarrow> (exn + EmailVerificationResult option) \<times> engine" where
  "run_strategy E addr domain mx_records s =
     (case identify_provider E addr s of
        (Inl e, s1) \<Rightarrow> (Inl e, s1)
      | (Inr (prov, login_url), s1) \<Rightarrow>
          (if prov \<in> set microsoft_providers then
             some_result (verify_microsoft_email E addr prov (opt_str login_url) domain s1)
           else if prov = ''gmail.com'' then
             some_result (verify_gmail_email E addr prov (opt_str login_url) s1)
           else if prov = ''customGoogle'' then
             some_result (verify_custom_google_email E addr prov (opt_str login_url) s1)
           else if prov = ''custom'' \<or> login_url = None \<or> login_url = Some [] then
             some_result (verify_custom_domain_email E addr domain mx_records s1)
           else verify_other_provider_email E addr prov (opt_str login_url) s1))"

text \<open>
  \<open>ImprovedLoginVerifier.verify_email\<close>.  The result is \<open>None\<close> where the Python function
  returns \<open>None\<close>.
\<close>

definition verify_email ::
  "env \<Rightarrow> string \<Rightarrow> engine \<Rightarrow> (exn + EmailVerificationResult option) \<times> engine" where
  "verify_email E addr s =
     (case check_email_in_data addr s of
        Some cat \<Rightarrow>
          (Inr (Some (mk_result addr cat (''Email found in '' @ cat @ '' list'') ''cached''
                        None s)), s)
      | None \<Rightarrow>
          (case result_cache s addr of
             Some r \<Rightarrow> (Inr (Some r), s)
           | None \<Rightarrow>
               (if \<not> validate_format addr then
                  some_result (finish addr
                    (mk_result addr INVALID ''Invalid email format'' ''unknown'' None s) s)
                else
                  (case split_domain addr of
                     Inl e \<Rightarrow> (Inl e, s)
                   | Inr domain \<Rightarrow>
                       (if domain \<in> set (blacklisted_domains E) then
                          some_result (finish addr
                            (mk_result addr INVALID ''Domain is blacklisted'' domain None s) s)
                        else if domain \<in> set (skip_domains E) then
                          some_result (finish addr
                            (mk_result addr VALID ''Domain in whitelist'' domain None s) s)
                        else
                          (let (mx_records, s1) = get_mx_records E domain s
                           in if mx_records = [] then
                                some_result (finish addr
                                  (mk_result addr INVALID ''Domain has no mail servers''
                                     ''unknown'' None s1) s1)
                              else run_strategy E addr domain mx_records s1))))))"

section \<open>Process-isolated batch worker\<close>

text \<open>
  \<open>_process_worker\<close>: each address of the chunk is verified inside \<open>try\<close>; the dictionary put
  on the result queue is \<open>result.to_dict()\<close>, or the error dictionary built by the handler.
  Calling \<open>to_dict\<close> on \<open>None\<close> raises inside the same \<open>try\<close>.  \<open>envs k\<close> is the settings
  and the outside world while the address at position \<open>k\<close> is verified.
\<close>

definition none_has_no_attribute :: "string \<Rightarrow> exn" where
  "none_has_no_attribute attr =
     AttributeError ([CHR 0x27] @ ''NoneType'' @ [CHR 0x27] @ '' object has no attribute '' @
                     [CHR 0x27] @ attr @ [CHR 0x27])"

definition worker_error_dict :: "string \<Rightarrow> exn \<Rightarrow> engine \<Rightarrow> pydict" where
  "worker_error_dict addr e s =
     [(''email'', PStr addr), (''category'', PStr RISKY),
      (''reason'', PStr (''Verification error: '' @ str_exn e)),
      (''provider'', PStr ''unknown''),
      (''details'', PDict [(''error'', PStr (str_exn e))]),
      (''timestamp'', PInt (clock s))]"

fun process_worker ::
  "(nat \<Rightarrow> env) \<Rightarrow> nat \<Rightarrow> string list \<Rightarrow> engine \<Rightarrow> (string \<times> pydict) list \<times> engine" where
  "process_worker envs k [] s = ([], s)"
| "process_worker envs k (addr # rest) s =
     (let (entry, s1) =
            (case verify_email (envs k) addr s of
               (Inr (Some result), s1) \<Rightarrow> ((addr, to_dict result), s1)
             | (Inr None, s1) \<Rightarrow>
                 ((addr, worker_error_dict addr (none_has_no_attribute ''to_dict'') s1), s1)
             | (Inl e, s1) \<Rightarrow> ((addr, worker_error_dict addr e s1), s1));
          (queue, s2) = process_worker envs (Suc k) rest s1
      in (entry # queue, s2))"

section \<open>The verifier service\<close>

text \<open>
  A task of \<open>VerifierService.verification_tasks\<close>.  \<open>task_results\<close> is the dictionary from
  address to result dictionary, in insertion order.
\<close>

record task =
  task_status :: string
  task_total :: nat
  task_completed :: nat
  task_results :: "(string \<times> pydict) list"
  task_start_time :: int
  task_end_time :: "int option"
  task_emails :: "string list"
  task_method :: string

text \<open>
  \<open>class VerifierService\<close>.  \<open>login_verifier\<close> is the engine; \<open>smtp_verifier\<close> tells whether an
  \<open>EmailBounceVerifier\<close> was configured (otherwise the attribute is \<open>None\<close>);
  \<open>service_cache\<close> is the service's own \<open>result_cache\<close>, a dictionary in insertion order.
  Writing the cache file to disk is left out.

  Results are values here.  In the source the service annotates (\<open>details["method"]\<close>,
  \<open>details["verification_time"]\<close>) the very object the engine returned, which may also be
  the entry of the engine's own cache; the engine never reads these two keys and the service
  writes both anew on every miss, so the engine's entry is kept as the engine produced it.
\<close>

record service =
  login_verifier :: engine
  smtp_verifier :: bool
  service_cache :: "(string \<times> EmailVerificationResult) list"
  verification_tasks :: "string \<Rightarrow> task option"

definition max_cache_size :: nat where "max_cache_size = 1000"

text \<open>\<open>int(self.max_cache_size * 0.1)\<close>\<close>

definition remove_count :: nat where "remove_count = 100"

text \<open>
  \<open>for _ in range(remove_count): if self.result_cache:
  self.result_cache.pop(next(iter(self.result_cache)))\<close>
\<close>

fun evict :: "nat \<Rightarrow> (string \<times> EmailVerificationResult) list
                \<Rightarrow> (string \<times> EmailVerificationResult) list" where
  "evict 0 c = c"
| "evict (Suc n) c = (case c of [] \<Rightarrow> evict n [] | (k, v) # rest \<Rightarrow> evict n (AList.delete k c))"

definition add_to_cache ::
  "string \<Rightarrow> EmailVerificationResult \<Rightarrow> (string \<times> EmailVerificationResult) list
     \<Rightarrow> (string \<times> EmailVerificationResult) list" where
  "add_to_cache addr result c =
     AList.update addr result (if length c \<ge> max_cache_size then evict remove_count c else c)"

text \<open>\<open>if result.details is None: result.details = {}\<close> followed by assignments to keys.\<close>

definition details_dict :: "EmailVerificationResult \<Rightarrow> pydict" where
  "details_dict r = (case details r of None \<Rightarrow> [] | Some d \<Rightarrow> d)"

definition set_detail :: "string \<Rightarrow> pyval \<Rightarrow> EmailVerificationResult \<Rightarrow> EmailVerificationResult" where
  "set_detail k v r = r\<lparr>details := Some (AList.update k v (details_dict r))\<rparr>"

text \<open>The dictionary returned by the service's \<open>verify_email\<close>.\<close>

definition response_dict :: "EmailVerificationResult \<Rightarrow> string \<Rightarrow> pydict" where
  "response_dict r meth =
     [(''email'', PStr (email r)), (''category'', PStr (category r)),
      (''reason'', PStr (reason r)), (''provider'', PStr (provider r)),
      (''details'', PDict (details_dict r)),
      (''method'', (case map_of (details_dict r) ''method'' of None \<Rightarrow> PStr meth | Some v \<Rightarrow> v))]"

text \<open>
  The three branches that call a verifier.  The login branches time the call
  (\<open>verification_time\<close>, here the clock difference) and annotate the result.
  \<open>EmailBounceVerifier\<close> has no method \<open>verify_email\<close>, so the SMTP branch raises
  \<open>AttributeError\<close> at the call.
\<close>

definition use_login_verifier ::
  "env \<Rightarrow> string \<Rightarrow> service \<Rightarrow> (exn + EmailVerificationResult) \<times> service" where
  "use_login_verifier E addr svc =
     (let start_time = clock (login_verifier svc) in
      case verify_email E addr (login_verifier svc) of
        (Inl e, eng) \<Rightarrow> (Inl e, svc\<lparr>login_verifier := eng\<rparr>)
      | (Inr None, eng) \<Rightarrow>
          (Inl (none_has_no_attribute ''details''), svc\<lparr>login_verifier := eng\<rparr>)
      | (Inr (Some result), eng) \<Rightarrow>
          (let verification_time = clock eng - start_time
           in (Inr (set_detail ''verification_time'' (PInt verification_time)
                      (set_detail ''method'' (PStr ''login'') result)),
               svc\<lparr>login_verifier := eng\<rparr>)))"

definition bounce_verifier_has_no_verify_email :: exn where
  "bounce_verifier_has_no_verify_email =
     AttributeError ([CHR 0x27] @ ''EmailBounceVerifier'' @ [CHR 0x27] @
                     '' object has no attribute '' @ [CHR 0x27] @ ''verify_email'' @ [CHR 0x27])"

text \<open>\<open>VerifierService.verify_email\<close>\<close>

definition service_verify_email ::
  "env \<Rightarrow> string \<Rightarrow> string \<Rightarrow> service \<Rightarrow> (exn + pydict) \<times> service" where
  "service_verify_email E addr meth svc =
     (case map_of (service_cache svc) addr of
        Some cached \<Rightarrow>
          (let result = set_detail ''method'' (PStr meth) cached
           in (Inr (response_dict result meth),
               svc\<lparr>service_cache := AList.update addr result (service_cache svc)\<rparr>))
      | None \<Rightarrow>
          (case (if meth = ''login'' \<or> meth = ''auto'' then use_login_verifier E addr svc
                 else if meth = ''smtp'' \<and> smtp_verifier svc
                   then (Inl bounce_verifier_has_no_verify_email, svc)
                 else use_login_verifier E addr svc) of
             (Inl e, svc1) \<Rightarrow> (Inl e, svc1)
           | (Inr result, svc1) \<Rightarrow>
               (Inr (response_dict result meth),
                svc1\<lparr>service_cache := add_to_cache addr result (service_cache svc1)\<rparr>)))"

subsection \<open>Batch tasks\<close>

text \<open>
  \<open>start_batch_verification\<close> with the task id drawn by \<open>uuid4\<close>; the background thread it
  starts is \<open>background_verification\<close> below.
\<close>

definition start_batch_verification :: "string \<Rightarrow> string list \<Rightarrow> string \<Rightarrow> service \<Rightarrow> service" where
  "start_batch_verification task_id addrs meth svc =
     svc\<lparr>verification_tasks := (verification_tasks svc)(task_id \<mapsto>
           \<lparr>task_status = ''pending'', task_total = length addrs, task_completed = 0,
            task_results = [], task_start_time = clock (login_verifier svc),
            task_end_time = None, task_emails = addrs, task_method = meth\<rparr>)\<rparr>"

definition error_dict :: "string \<Rightarrow> exn \<Rightarrow> string \<Rightarrow> pydict" where
  "error_dict addr e meth =
     [(''email'', PStr addr), (''category'', PStr ''error''), (''reason'', PStr (str_exn e)),
      (''provider'', PStr ''unknown''),
      (''details'', PDict [(''error'', PStr (str_exn e)), (''method'', PStr meth)]),
      (''method'', PStr meth)]"

definition update_task :: "string \<Rightarrow> (task \<Rightarrow> task) \<Rightarrow> service \<Rightarrow> service" where
  "update_task task_id f svc =
     svc\<lparr>verification_tasks := (verification_tasks svc)(task_id :=
           map_option f (verification_tasks svc task_id))\<rparr>"

text \<open>
  The loop of \<open>_background_verification\<close> over the task's addresses; \<open>results\<close> and
  \<open>completed_count\<close> are its two local variables, published to the task after each address.
  \<open>envs k\<close> is the settings and the outside world while the address at position \<open>k\<close> is
  verified.
\<close>

fun background_loop ::
  "(nat \<Rightarrow> env) \<Rightarrow> nat \<Rightarrow> string \<Rightarrow> string \<Rightarrow> string list \<Rightarrow> (string \<times> pydict) list \<Rightarrow> nat
     \<Rightarrow> service \<Rightarrow> service" where
  "background_loop envs k task_id meth [] results completed_count svc = svc"
| "background_loop envs k task_id meth (addr # rest) results completed_count svc =
     (let (outcome, svc1) = service_verify_email (envs k) addr meth svc;
          result_dict = (case outcome of Inr d \<Rightarrow> d | Inl e \<Rightarrow> error_dict addr e meth);
          results1 = AList.update addr result_dict results;
          svc2 = update_task task_id
                   (\<lambda>t. t\<lparr>task_completed := completed_count + 1, task_results := results1\<rparr>) svc1
      in background_loop envs (Suc k) task_id meth rest results1 (completed_count + 1) svc2)"

definition background_verification ::
  "(nat \<Rightarrow> env) \<Rightarrow> string \<Rightarrow> service \<Rightarrow> (exn + unit) \<times> service" where
  "background_verification envs task_id svc =
     (case verification_tasks svc task_id of
        None \<Rightarrow> (Inl (KeyError ([CHR 0x27] @ task_id @ [CHR 0x27])), svc)
      | Some t \<Rightarrow>
          (let svc1 = update_task task_id (\<lambda>t. t\<lparr>task_status := ''running''\<rparr>) svc;
               svc2 = background_loop envs 0 task_id (task_method t) (task_emails t) [] 0 svc1;
               svc3 = update_task task_id
                        (\<lambda>t. t\<lparr>task_status := ''completed'',
                               task_end_time := Some (clock (login_verifier svc2))\<rparr>) svc2
           in (Inr (), svc3)))"

text \<open>
  \<open>get_task_status\<close>.  Python's \<open>/\<close> raises \<open>ZeroDivisionError\<close> for a zero divisor; the
  quotient is taken in the rationals.
\<close>

definition truediv :: "nat \<Rightarrow> nat \<Rightarrow> exn + rat" where
  "truediv a b = (if b = 0 then Inl (ZeroDivisionError ''division by zero'')
                  else Inr (of_nat a / of_nat b))"

record status_report =
  sr_task_id :: string
  sr_status :: string
  sr_total :: nat
  sr_completed :: nat
  sr_progress :: rat
  sr_start_time :: int
  sr_end_time :: "int option"
  sr_method :: string

definition get_task_status :: "string \<Rightarrow> service \<Rightarrow> exn + status_report option" where
  "get_task_status task_id svc =
     (case verification_tasks svc task_id of
        None \<Rightarrow> Inr None
      | Some t \<Rightarrow>
          (case (if task_total t > 0
                 then (case truediv (task_completed t) (task_total t) of
                         Inl e \<Rightarrow> Inl e | Inr q \<Rightarrow> Inr (q * 100))
                 else Inr 0) of
             Inl e \<Rightarrow> Inl e
           | Inr progress \<Rightarrow>
               Inr (Some \<lparr>sr_task_id = task_id, sr_status = task_status t, sr_total = task_total t,
                          sr_completed = task_completed t, sr_progress = progress,
                          sr_start_time = task_start_time t, sr_end_time = task_end_time t,
                          sr_method = task_method t\<rparr>)))"

section \<open>Initial states\<close>

text \<open>
  The engine after \<open>__init__\<close>: empty caches, a fresh limiter built from the two settings,
  result and data files holding their header only.
\<close>

definition engine_init :: "int \<Rightarrow> int \<Rightarrow> engine" where
  "engine_init rate_limit_max_requests rate_limit_time_window =
     \<lparr>result_cache = (\<lambda>_. None), mx_cache = (\<lambda>_. None),
      rate_limiter = RateLimiter_init rate_limit_max_requests rate_limit_time_window,
      csv_files = (\<lambda>_. []), data_files = (\<lambda>_. []), clock = 0, trace = []\<rparr>"

text \<open>The service after \<open>__init__\<close> when no cache file exists.\<close>

definition service_init :: "bool \<Rightarrow> service" where
  "service_init smtp_configured =
     \<lparr>login_verifier = engine_init 10 60, smtp_verifier = smtp_configured,
      service_cache = [], verification_tasks = (\<lambda>_. None)\<rparr>"

text \<open>
  An environment with every feature switched off, no browsers, empty lists, a DNS that fails
  and servers that refuse: the base from which examples are built by record update.
\<close>

definition quiet_env :: env where
  "quiet_env =
     \<lparr>catch_all_detection = False, microsoft_api = False, verification_loop_enabled = False,
      browsers = [], blacklisted_domains = [], skip_domains = [],
      dns_resolve = (\<lambda>_. None), smtp_session = (\<lambda>_ _ _. SmtpError),
      api_post = (\<lambda>_ _. HttpFailure),
      browser_session = (\<lambda>_ _ _ _. Inl (WebDriverException ''no driver'')),
      random_smtp = ''k3x9q0ab71mzpl2c'', random_api = ''w8e2r5t1y6u0i4o7''\<rparr>"

section \<open>Notions used in the statements\<close>

text \<open>Events that are SMTP sessions.\<close>

definition is_smtp_event :: "event \<Rightarrow> bool" where
  "is_smtp_event ev = (case ev of SmtpSession _ _ _ \<Rightarrow> True | _ \<Rightarrow> False)"

text \<open>
  Events of the limiter: a check, a request for the remaining backoff, the sleep that follows
  it, and the recording of a request.
\<close>

definition is_limiter_event :: "event \<Rightarrow> bool" where
  "is_limiter_event ev =
     (case ev of RL_check _ \<Rightarrow> True | RL_backoff _ \<Rightarrow> True | Sleep _ \<Rightarrow> True
      | RL_record _ \<Rightarrow> True | _ \<Rightarrow> False)"

text \<open>The events of one passage through the rate-limit gate.\<close>

definition gate_events :: "string \<Rightarrow> engine \<Rightarrow> event list" where
  "gate_events d s =
     (if fst (is_rate_limited (rate_limiter s) d (clock s))
      then [RL_check d, RL_backoff d, Sleep (get_backoff_time (rate_limiter s) d (clock s)),
            RL_record d]
      else [RL_check d, RL_record d])"

text \<open>An engine whose limiter holds ten requests for \<open>example.org\<close>, all at time 0.\<close>

definition saturated_engine :: engine where
  "saturated_engine =
     (engine_init 10 60)\<lparr>rate_limiter :=
        (RateLimiter_init 10 60)\<lparr>request_history :=
           (\<lambda>_. None)(''example.org'' \<mapsto> [0, 0, 0, 0, 0, 0, 0, 0, 0, 0])\<rparr>\<rparr>"

text \<open>
  Three worlds for examples.  In each the DNS gives one MX host for every domain.  In the
  first the host answers every \<open>RCPT TO\<close> with 550; in the second it accepts every
  recipient and catch-all detection is switched off; the third is the second with
  catch-all detection switched on.
\<close>

definition rejecting_env :: env where
  "rejecting_env =
     quiet_env\<lparr>dns_resolve := (\<lambda>_. Some [''mx1.example.org.'']),
               smtp_session := (\<lambda>_ _ _. Reply 550 ''5.1.1 user unknown'')\<rparr>"

definition accepting_env :: env where
  "accepting_env =
     quiet_env\<lparr>dns_resolve := (\<lambda>_. Some [''mx1.example.org.'']),
               smtp_session := (\<lambda>_ _ _. Reply 250 ''2.1.5 ok'')\<rparr>"

definition detecting_env :: env where
  "detecting_env = accepting_env\<lparr>catch_all_detection := True\<rparr>"

text \<open>A world in which \<open>example.com\<close> is on the whitelist, as in the service's defaults.\<close>

definition whitelist_env :: env where
  "whitelist_env = quiet_env\<lparr>skip_domains := [''example.com'', ''test.com'']\<rparr>"

text \<open>
  A sequence of calls of the service's \<open>verify_email\<close>, each with its world, address and
  method; and the statement that the cache entry of an address is there before the first
  call and after every call of the sequence.
\<close>

fun run_calls :: "(env \<times> string \<times> string) list \<Rightarrow> service \<Rightarrow> service" where
  "run_calls [] svc = svc"
| "run_calls ((E, b, m) # cs) svc = run_calls cs (snd (service_verify_email E b m svc))"

fun entry_lives :: "string \<Rightarrow> (env \<times> string \<times> string) list \<Rightarrow> service \<Rightarrow> bool" where
  "entry_lives a [] svc = (map_of (service_cache svc) a \<noteq> None)"
| "entry_lives a ((E, b, m) # cs) svc =
     (map_of (service_cache svc) a \<noteq> None \<and>
      entry_lives a cs (snd (service_verify_email E b m svc)))"

text \<open>The service after one verification of a whitelisted address with method \<open>auto\<close>.\<close>

definition service_after_first :: service where
  "service_after_first =
     snd (service_verify_email whitelist_env ''a@example.com'' ''auto'' (service_init False))"

text \<open>
  What a probe leaves alone: the engine's result cache and the two sets of files.
\<close>

definition probe_frame :: "engine \<Rightarrow> engine \<Rightarrow> bool" where
  "probe_frame s s' \<longleftrightarrow>
     result_cache s' = result_cache s \<and> data_files s' = data_files s \<and>
     csv_files s' = csv_files s"

text \<open>
  What a strategy does to them: nothing, or, after its probes, one \<open>finish\<close> for the
  address.
\<close>

definition strategy_post :: "string \<Rightarrow> engine \<Rightarrow> engine \<Rightarrow> bool" where
  "strategy_post a s s' \<longleftrightarrow>
     (\<exists>m. probe_frame s m \<and> (s' = m \<or> (\<exists>r. s' = snd (finish a r m))))"

text \<open>The number of rows equal to an address over the four data files.\<close>

definition rows_for :: "string \<Rightarrow> engine \<Rightarrow> nat" where
  "rows_for a s = sum_list (map (\<lambda>c. count_list (data_files s c) a) categories)"

text \<open>Running the engine's \<open>verify_email\<close> on one address once per given world.\<close>

fun verify_repeatedly :: "env list \<Rightarrow> string \<Rightarrow> engine \<Rightarrow> engine" where
  "verify_repeatedly [] a s = s"
| "verify_repeatedly (E # Es) a s = verify_repeatedly Es a (snd (verify_email E a s))"

text \<open>The engine after one verification of a whitelisted address.\<close>

definition engine_after_first :: engine where
  "engine_after_first = snd (verify_email whitelist_env ''a@example.com'' (engine_init 10 60))"

text \<open>A world with one blacklisted domain.\<close>

definition blacklist_env :: env where
  "blacklist_env = quiet_env\<lparr>blacklisted_domains := [''spam.example.net'']\<rparr>"

text \<open>An engine whose result cache holds an address that no data file holds.\<close>

definition cached_only_engine :: engine where
  "cached_only_engine =
     (engine_init 10 60)\<lparr>result_cache := (\<lambda>_. None)(''c@example.org'' \<mapsto>
        \<lparr>email = ''c@example.org'', category = ''risky'', reason = ''Mailbox unavailable'',
         provider = ''example.org'', details = None, timestamp = 0\<rparr>)\<rparr>"

text \<open>
  A world with catch-all detection on, a server that accepts every recipient, and one
  browser whose login page shows the password prompt.
\<close>

definition prompting_env :: env where
  "prompting_env =
     detecting_env\<lparr>browsers := [''chrome''],
                   browser_session := (\<lambda>_ _ _ _.
                     Inr \<lparr>lo_verdict = Valid,
                          lo_reason = ''URL changed to password challenge'',
                          lo_details = [(''browser'', PStr ''chrome'')],
                          lo_page_classified = True\<rparr>)\<rparr>"

text \<open>
  Running the service's \<open>verify_email\<close> on one address once per given world and method.
\<close>

fun service_verify_repeatedly :: "(env \<times> string) list \<Rightarrow> string \<Rightarrow> service \<Rightarrow> service" where
  "service_verify_repeatedly [] a svc = svc"
| "service_verify_repeatedly ((E, m) # cs) a svc =
     service_verify_repeatedly cs a (snd (service_verify_email E a m svc))"

text \<open>
  A strategy returned result \<open>r\<close> for address \<open>a\<close>: after its probes it ran \<open>finish\<close> on
  \<open>r\<close>, a result for \<open>a\<close>, and \<open>finish\<close> returned.
\<close>

definition returns_finished :: "string \<Rightarrow> engine \<Rightarrow> EmailVerificationResult \<Rightarrow> engine \<Rightarrow> bool" where
  "returns_finished a s r s' \<longleftrightarrow>
     (\<exists>m. probe_frame s m \<and> email r = a \<and> finish a r m = (Inr r, s'))"

section \<open>Unfolding the model on concrete inputs\<close>

text \<open>The definitions that the limiter's methods unfold on a concrete limiter.\<close>

lemmas limiter_eval = is_rate_limited_def get_backoff_time_def add_request_def
  RateLimiter_init_def timedelta_seconds_def recent_requests_def in_backoff_def

text \<open>Unfolding everything an SMTP verification of a concrete address runs through.\<close>

lemmas smtp_eval = verify_email_smtp_def split_domain_def rate_limit_gate_def
  get_mx_records_def check_catch_all_def verify_smtp_def try_mx.simps max_retries_def
  mk_result_def py_lower_def lower_chr_def rstrip_dot_def is_rate_limited_def
  get_backoff_time_def add_request_def RateLimiter_init_def timedelta_seconds_def
  engine_init_def quiet_env_def rejecting_env_def accepting_env_def detecting_env_def Let_def

text \<open>The definitions a run of the pre-checks unfolds.\<close>

lemmas engine_eval = verify_email_def check_email_in_data_def categories_def
  validate_format_def pattern_matches_def domain_matches_def local_chr_def domain_chr_def
  is_alnum_def is_alpha_def split_domain_def finish_def save_result_def
  add_email_to_data_def py_lower_def lower_chr_def some_result_def mk_result_def
  category_defs engine_init_def quiet_env_def whitelist_env_def blacklist_env_def
  RateLimiter_init_def Let_def

text \<open>The definitions a run of the Gmail strategy unfolds.\<close>

lemmas strategy_eval = run_strategy_def identify_provider_def provider_login_urls_def
  microsoft_providers_def verify_gmail_email_def definitive_def verify_login_def
  login_provider_def returning_def prompting_env_def

text \<open>The definitions a call of the service unfolds.\<close>

lemmas service_eval = service_verify_email_def use_login_verifier_def service_init_def
  set_detail_def details_dict_def response_dict_def add_to_cache_def max_cache_size_def
  start_batch_verification_def background_verification_def update_task_def error_dict_def
  bounce_verifier_has_no_verify_email_def

section \<open>Properties of the rate limiter\<close>

text \<open>
  C6 as stated fails for a limiter whose maximum is 0, a value the settings accept: for a
  domain with no recorded request \<open>is_rate_limited\<close> returns false at once, although the
  domain is not in backoff and the number of its recorded requests in the window, 0, is at
  least the maximum.
\<close>

theorem zero_maximum_counterexample:
  "\<not> fst (is_rate_limited (RateLimiter_init 0 60) ''example.org'' 0) \<and>
   \<not> in_backoff (RateLimiter_init 0 60) ''example.org'' 0 \<and>
   max_requests (RateLimiter_init 0 60)
     \<le> int (recent_requests (RateLimiter_init 0 60) ''example.org'' 0)"
  by (simp add: limiter_eval)

text \<open>
  C6, as the code has it.  For a limiter whose maximum is at least one request (the default
  is 10 per 60 seconds), \<open>is_rate_limited\<close> answers true for a domain at time \<open>now\<close>
  exactly when the domain is in backoff (\<open>now < backoff_until\<close>) or the number of recorded
  request timestamps \<open>t\<close> with \<open>now - t < W\<close> is at least the maximum.
\<close>

theorem is_rate_limited_iff:
  assumes "0 < max_requests rl"
  shows "fst (is_rate_limited rl d now) \<longleftrightarrow>
           in_backoff rl d now \<or> max_requests rl \<le> int (recent_requests rl d now)"
  using assms
  by (auto simp: is_rate_limited_def in_backoff_def recent_requests_def Let_def
           split: option.splits)

theorem is_rate_limited_iff_witness:
  "0 < max_requests (rate_limiter saturated_engine) \<and>
   max_requests default_rate_limiter = 10 \<and> time_window default_rate_limiter = 60 \<and>
   fst (is_rate_limited (rate_limiter saturated_engine) ''example.org'' 59999999) \<and>
   \<not> in_backoff (rate_limiter saturated_engine) ''example.org'' 59999999 \<and>
   recent_requests (rate_limiter saturated_engine) ''example.org'' 59999999 = 10 \<and>
   \<not> fst (is_rate_limited (rate_limiter saturated_engine) ''example.org'' 60000000) \<and>
   recent_requests (rate_limiter saturated_engine) ''example.org'' 60000000 = 0"
  using is_rate_limited_iff [of "rate_limiter saturated_engine" "''example.org''" 59999999]
        is_rate_limited_iff [of "rate_limiter saturated_engine" "''example.org''" 60000000]
  by (simp add: saturated_engine_def engine_init_def default_rate_limiter_def limiter_eval)

section \<open>Properties of the SMTP probe\<close>

lemma try_mx_550:
  "SmtpSession rc mx' (Reply 550 m) \<in> set (snd (try_mx sess rcpt mx k result)) \<Longrightarrow>
   \<exists>r. fst (try_mx sess rcpt mx k result) = Return r \<and>
       smtp_reason r = Some ''Mailbox unavailable'' \<and> is_deliverable r = is_deliverable result"
proof (induction sess rcpt mx k result rule: try_mx.induct)
  case (1 sess rcpt mx retry_count result)
  show ?case
  proof (cases "retry_count < max_retries")
    case False
    with "1.prems" show ?thesis by (simp add: try_mx.simps)
  next
    case lt: True
    show ?thesis
    proof (cases "sess retry_count")
      case (Reply code message)
      with lt "1.prems" show ?thesis
        by (auto simp: try_mx.simps [of sess rcpt mx retry_count] Let_def split: if_splits)
    next
      case NetworkError
      show ?thesis
      proof (cases "retry_count + 1 < max_retries")
        case True
        with lt NetworkError "1.prems"
        have "SmtpSession rc mx' (Reply 550 m)
                \<in> set (snd (try_mx sess rcpt mx (retry_count + 1) result))"
          by (auto simp: try_mx.simps [of sess rcpt mx retry_count] Let_def split: prod.splits)
        from "1.IH" [OF lt refl NetworkError True this] lt NetworkError True
        show ?thesis
          by (auto simp: try_mx.simps [of sess rcpt mx retry_count] Let_def split: prod.splits)
      next
        case False
        with lt NetworkError "1.prems" show ?thesis
          by (auto simp: try_mx.simps [of sess rcpt mx retry_count] Let_def)
      qed
    next
      case SmtpError
      with lt "1.prems" show ?thesis
        by (auto simp: try_mx.simps [of sess rcpt mx retry_count] Let_def)
    qed
  qed
qed

lemma try_mx_Break:
  "fst (try_mx sess rcpt mx k result) = Break r \<Longrightarrow> is_deliverable r = is_deliverable result"
proof (induction sess rcpt mx k result rule: try_mx.induct)
  case (1 sess rcpt mx retry_count result)
  then show ?case
    by (subst (asm) (2) try_mx.simps)
       (auto simp: Let_def split: if_splits smtp_outcome.splits prod.splits)
qed

lemma try_mx_rcpt:
  "SmtpSession rc mx' out \<in> set (snd (try_mx sess rcpt mx k result)) \<Longrightarrow> rc = rcpt"
proof (induction sess rcpt mx k result rule: try_mx.induct)
  case (1 sess rcpt mx retry_count result)
  then show ?case
    by (subst (asm) (2) try_mx.simps)
       (auto simp: Let_def split: if_splits smtp_outcome.splits prod.splits)
qed

lemma mx_loop_550:
  "SmtpSession rc mx' (Reply 550 m) \<in> set (snd (mx_loop sess rcpt mxs result)) \<Longrightarrow>
   \<not> is_deliverable result \<Longrightarrow>
   \<exists>r. fst (mx_loop sess rcpt mxs result) = Return r \<and>
       smtp_reason r = Some ''Mailbox unavailable'' \<and> \<not> is_deliverable r"
proof (induction mxs arbitrary: result)
  case Nil
  then show ?case by simp
next
  case (Cons mx mxs)
  obtain x evs where t: "try_mx (sess mx) rcpt mx 0 result = (x, evs)"
    by (cases "try_mx (sess mx) rcpt mx 0 result")
  show ?case
  proof (cases x)
    case (Return r)
    with t Cons.prems try_mx_550 [of rc mx' m "sess mx" rcpt mx 0 result]
    show ?thesis by auto
  next
    case (Break r)
    obtain y evs1 where l: "mx_loop sess rcpt mxs r = (y, evs1)"
      by (cases "mx_loop sess rcpt mxs r")
    from t Break try_mx_Break [of "sess mx" rcpt mx 0 result r] Cons.prems(2)
    have nd: "\<not> is_deliverable r" by simp
    from t Break try_mx_550 [of rc mx' m "sess mx" rcpt mx 0 result]
    have "SmtpSession rc mx' (Reply 550 m) \<notin> set evs" by auto
    with Cons.prems(1) t Break l
    have "SmtpSession rc mx' (Reply 550 m) \<in> set (snd (mx_loop sess rcpt mxs r))" by simp
    from Cons.IH [OF this nd] t Break l show ?thesis by simp
  qed
qed

lemma mx_loop_rcpt:
  "SmtpSession rc mx' out \<in> set (snd (mx_loop sess rcpt mxs result)) \<Longrightarrow> rc = rcpt"
proof (induction mxs arbitrary: result)
  case Nil
  then show ?case by simp
next
  case (Cons mx mxs)
  obtain x evs where t: "try_mx (sess mx) rcpt mx 0 result = (x, evs)"
    by (cases "try_mx (sess mx) rcpt mx 0 result")
  have e: "SmtpSession rc mx' out \<in> set evs \<Longrightarrow> rc = rcpt"
    using try_mx_rcpt [of rc mx' out "sess mx" rcpt mx 0 result] t by simp
  show ?case
  proof (cases x)
    case (Return r)
    with t Cons.prems e show ?thesis by simp
  next
    case (Break r)
    obtain y evs1 where l: "mx_loop sess rcpt mxs r = (y, evs1)"
      by (cases "mx_loop sess rcpt mxs r")
    with t Break Cons.prems e Cons.IH [of r] show ?thesis by auto
  qed
qed

lemma verify_smtp_550:
  assumes "SmtpSession rc mx (Reply 550 m) \<in> set (snd (verify_smtp sess addr mxs))"
  shows "smtp_reason (fst (verify_smtp sess addr mxs)) = Some ''Mailbox unavailable'' \<and>
         \<not> is_deliverable (fst (verify_smtp sess addr mxs))"
proof -
  let ?r0 = "\<lparr>is_deliverable = False, smtp_check = False, smtp_reason = None, mx_used = None\<rparr>"
  obtain x evs where l: "mx_loop (sess addr) addr mxs ?r0 = (x, evs)"
    by (cases "mx_loop (sess addr) addr mxs ?r0")
  from assms have ne: "mxs \<noteq> []" by (auto simp: verify_smtp_def)
  with assms l have "SmtpSession rc mx (Reply 550 m) \<in> set (snd (mx_loop (sess addr) addr mxs ?r0))"
    by (cases x) (auto simp: verify_smtp_def Let_def split: if_splits)
  from mx_loop_550 [OF this] ne l show ?thesis
    by (auto simp: verify_smtp_def Let_def)
qed

lemma verify_smtp_rcpt:
  assumes "SmtpSession rc mx out \<in> set (snd (verify_smtp sess addr mxs))"
  shows "rc = addr"
proof -
  let ?r0 = "\<lparr>is_deliverable = False, smtp_check = False, smtp_reason = None, mx_used = None\<rparr>"
  obtain x evs where l: "mx_loop (sess addr) addr mxs ?r0 = (x, evs)"
    by (cases "mx_loop (sess addr) addr mxs ?r0")
  from assms have ne: "mxs \<noteq> []" by (auto simp: verify_smtp_def)
  with assms l have "SmtpSession rc mx out \<in> set (snd (mx_loop (sess addr) addr mxs ?r0))"
    by (cases x) (auto simp: verify_smtp_def Let_def split: if_splits)
  then show ?thesis by (rule mx_loop_rcpt)
qed

lemma gate_trace:
  "trace (rate_limit_gate d s) = trace s @
     (if fst (is_rate_limited (rate_limiter s) d (clock s))
      then [RL_check d, RL_backoff d,
            Sleep (get_backoff_time (snd (is_rate_limited (rate_limiter s) d (clock s))) d (clock s)),
            RL_record d]
      else [RL_check d, RL_record d])"
  by (simp add: rate_limit_gate_def Let_def split: prod.splits)

lemma get_mx_records_cache:
  "get_mx_records E d s = (mxs, s2) \<Longrightarrow> mxs \<noteq> [] \<Longrightarrow> mx_cache s2 d = Some mxs"
  by (auto simp: get_mx_records_def Let_def split: option.splits)

lemma get_mx_records_trace:
  "get_mx_records E d s = (mxs, s2) \<Longrightarrow>
   \<exists>pre. trace s2 = trace s @ pre \<and> (\<forall>ev \<in> set pre. \<not> is_smtp_event ev)"
  by (auto simp: get_mx_records_def Let_def is_smtp_event_def split: option.splits)

lemma rate_limit_gate_trace:
  "\<exists>pre. trace (rate_limit_gate d s) = trace s @ pre \<and> (\<forall>ev \<in> set pre. \<not> is_smtp_event ev)"
  by (auto simp: gate_trace is_smtp_event_def)

lemma check_catch_all_cached:
  assumes "mx_cache s d = Some mxs" and "mxs \<noteq> []"
  shows "check_catch_all E d s =
           (catch_all_detection E \<and>
              is_deliverable (fst (verify_smtp (smtp_session E) (random_smtp E @ ''@'' @ d) mxs)),
            s\<lparr>trace := trace s @
                 (if catch_all_detection E
                  then snd (verify_smtp (smtp_session E) (random_smtp E @ ''@'' @ d) mxs)
                  else [])\<rparr>)"
  using assms
  by (auto simp: check_catch_all_def get_mx_records_def Let_def split: prod.splits)

text \<open>The shape of a run of verify_email_smtp that reaches the probe.\<close>

lemma verify_email_smtp_run:
  assumes d: "split_domain a = Inr d"
    and g: "get_mx_records E d (rate_limit_gate d s) = (mxs, s2)"
    and ne: "mxs \<noteq> []"
  shows "\<exists>pre. (\<forall>ev \<in> set pre. \<not> is_smtp_event ev) \<and>
     snd (verify_email_smtp E a s) =
       s2\<lparr>trace := trace s @ pre @
            (if catch_all_detection E
             then snd (verify_smtp (smtp_session E) (random_smtp E @ ''@'' @ d) mxs) else []) @
            snd (verify_smtp (smtp_session E) a mxs)\<rparr> \<and>
     fst (verify_email_smtp E a s) =
       Inr (let sr = fst (verify_smtp (smtp_session E) a mxs);
                ca = (catch_all_detection E \<and>
                       is_deliverable (fst (verify_smtp (smtp_session E)
                                              (random_smtp E @ ''@'' @ d) mxs)));
                r = (if is_deliverable sr then
                       (if ca then
                          mk_result a RISKY ''Domain has catch-all configuration'' d
                            (Some [(''smtp_result'', PDict (smtp_result_dict sr)),
                                   (''is_catch_all'', PBool True)]) s2
                        else mk_result a VALID ''Email verified via SMTP'' d
                               (Some (smtp_result_dict sr)) s2)
                     else if smtp_reason sr = Some ''Mailbox unavailable'' then
                       mk_result a RISKY ''Mailbox unavailable (may not indicate invalid email)'' d
                         (Some (smtp_result_dict sr)) s2
                     else mk_result a INVALID
                            (''Email verification failed: '' @ opt_str (smtp_reason sr)) d
                            (Some (smtp_result_dict sr)) s2)
            in r)"
proof -
  from rate_limit_gate_trace [of d s] obtain p1 where
    p1: "trace (rate_limit_gate d s) = trace s @ p1" "\<forall>ev \<in> set p1. \<not> is_smtp_event ev" by blast
  from get_mx_records_trace [OF g] obtain p2 where
    p2: "trace s2 = trace (rate_limit_gate d s) @ p2" "\<forall>ev \<in> set p2. \<not> is_smtp_event ev" by blast
  have c: "mx_cache s2 d = Some mxs" using get_mx_records_cache [OF g ne] .
  have "\<forall>ev \<in> set (p1 @ p2). \<not> is_smtp_event ev" using p1 p2 by auto
  moreover have "trace s2 = trace s @ (p1 @ p2)" using p1 p2 by simp
  ultimately show ?thesis
    using d g ne check_catch_all_cached [OF c ne, of E]
    apply (intro exI [of _ "p1 @ p2"])
    apply (simp add: verify_email_smtp_def Let_def mk_result_def split: prod.splits)
    done
qed

lemma verify_email_smtp_no_mx:
  assumes d: "split_domain a = Inr d"
    and g: "get_mx_records E d (rate_limit_gate d s) = ([], s2)"
  shows "\<forall>ev \<in> set (drop (length (trace s)) (trace (snd (verify_email_smtp E a s)))).
           \<not> is_smtp_event ev"
proof -
  from rate_limit_gate_trace [of d s] obtain p1 where
    p1: "trace (rate_limit_gate d s) = trace s @ p1" "\<forall>ev \<in> set p1. \<not> is_smtp_event ev" by blast
  from get_mx_records_trace [OF g] obtain p2 where
    p2: "trace s2 = trace (rate_limit_gate d s) @ p2" "\<forall>ev \<in> set p2. \<not> is_smtp_event ev" by blast
  from d g p1 p2 show ?thesis
    by (auto simp: verify_email_smtp_def Let_def)
qed

text \<open>
  C8.  If, in an SMTP verification of address \<open>a\<close>, a session answers \<open>RCPT TO:<a>\<close> with
  550, the SMTP outcome carries the reason "Mailbox unavailable" and the verdict of the
  verification is RISKY, not INVALID (whether or not the domain is catch-all).
\<close>

theorem smtp_550_is_risky:
  assumes run: "verify_email_smtp E a s = (Inr r, s')"
    and ev: "SmtpSession a mx (Reply 550 m) \<in> set (drop (length (trace s)) (trace s'))"
  shows "category r = RISKY \<and> category r \<noteq> INVALID \<and>
         reason r = ''Mailbox unavailable (may not indicate invalid email)'' \<and>
         (\<exists>sr. details r = Some (smtp_result_dict sr) \<and>
               smtp_reason sr = Some ''Mailbox unavailable'')"
proof -
  from run obtain d where d: "split_domain a = Inr d"
    by (cases "split_domain a") (auto simp: verify_email_smtp_def)
  obtain mxs s2 where g: "get_mx_records E d (rate_limit_gate d s) = (mxs, s2)"
    by (cases "get_mx_records E d (rate_limit_gate d s)")
  have ne: "mxs \<noteq> []"
  proof
    assume "mxs = []"
    with verify_email_smtp_no_mx [OF d, of E s s2] g run ev show False
      by (auto simp: is_smtp_event_def)
  qed
  let ?real = "verify_smtp (smtp_session E) a mxs"
  let ?ca = "verify_smtp (smtp_session E) (random_smtp E @ ''@'' @ d) mxs"
  from verify_email_smtp_run [OF d g ne] obtain pre where
    pre: "\<forall>ev \<in> set pre. \<not> is_smtp_event ev"
    and tr: "trace s' = trace s @ pre @ (if catch_all_detection E then snd ?ca else []) @ snd ?real"
    and res: "fst (verify_email_smtp E a s) =
       Inr (let sr = fst ?real;
                ca = (catch_all_detection E \<and> is_deliverable (fst ?ca));
                r = (if is_deliverable sr then
                       (if ca then
                          mk_result a RISKY ''Domain has catch-all configuration'' d
                            (Some [(''smtp_result'', PDict (smtp_result_dict sr)),
                                   (''is_catch_all'', PBool True)]) s2
                        else mk_result a VALID ''Email verified via SMTP'' d
                               (Some (smtp_result_dict sr)) s2)
                     else if smtp_reason sr = Some ''Mailbox unavailable'' then
                       mk_result a RISKY ''Mailbox unavailable (may not indicate invalid email)'' d
                         (Some (smtp_result_dict sr)) s2
                     else mk_result a INVALID
                            (''Email verification failed: '' @ opt_str (smtp_reason sr)) d
                            (Some (smtp_result_dict sr)) s2)
            in r)"
    using run by auto
  from ev tr pre have "SmtpSession a mx (Reply 550 m) \<in> set (snd ?ca) \<or>
                       SmtpSession a mx (Reply 550 m) \<in> set (snd ?real)"
    by (auto simp: is_smtp_event_def split: if_splits)
  then have "SmtpSession a mx (Reply 550 m) \<in> set (snd ?real)"
  proof
    assume c: "SmtpSession a mx (Reply 550 m) \<in> set (snd ?ca)"
    from verify_smtp_rcpt [OF c] c show ?thesis by simp
  qed
  from verify_smtp_550 [OF this] res run show ?thesis
    by (auto simp: Let_def mk_result_def category_defs)
qed

theorem smtp_550_is_risky_witness:
  "\<exists>r s'. verify_email_smtp rejecting_env ''nobody@example.org'' (engine_init 10 60) = (Inr r, s') \<and>
     SmtpSession ''nobody@example.org'' ''mx1.example.org'' (Reply 550 ''5.1.1 user unknown'')
       \<in> set (drop (length (trace (engine_init 10 60))) (trace s')) \<and>
     category r = RISKY \<and> category r \<noteq> INVALID \<and>
     reason r = ''Mailbox unavailable (may not indicate invalid email)''"
proof -
  obtain x s' where run: "verify_email_smtp rejecting_env ''nobody@example.org''
                            (engine_init 10 60) = (x, s')"
    by (cases "verify_email_smtp rejecting_env ''nobody@example.org'' (engine_init 10 60)")
  then obtain r where r: "x = Inr r"
    by (auto simp: smtp_eval)
  have ev: "SmtpSession ''nobody@example.org'' ''mx1.example.org''
              (Reply 550 ''5.1.1 user unknown'')
              \<in> set (drop (length (trace (engine_init 10 60))) (trace s'))"
    using run by (auto simp: smtp_eval)
  from smtp_550_is_risky [OF run [unfolded r] ev] run r ev show ?thesis by blast
qed

text \<open>
  C3 as stated fails, in two ways.  With catch-all detection switched off, a domain whose
  server accepts the synthesized random local part (and every other) gets VALID,
  "Email verified via SMTP", for its addresses.  With detection switched on, the Gmail
  strategy takes the RISKY verdict of the SMTP probe as inconclusive and goes on to the
  browser probe, whose VALID is the final verdict.
\<close>

theorem catch_all_not_downgraded_counterexample:
  "is_deliverable (fst (verify_smtp (smtp_session accepting_env)
                          (random_smtp accepting_env @ ''@'' @ ''example.org'')
                          [''mx1.example.org''])) \<and>
   map_sum id category
     (fst (verify_email_smtp accepting_env ''anything@example.org'' (engine_init 10 60)))
     = Inr VALID \<and>
   map_sum id reason
     (fst (verify_email_smtp accepting_env ''anything@example.org'' (engine_init 10 60)))
     = Inr ''Email verified via SMTP'' \<and>
   catch_all_detection prompting_env \<and>
   is_deliverable (fst (verify_smtp (smtp_session prompting_env)
                          (random_smtp prompting_env @ ''@'' @ ''gmail.com'')
                          [''mx1.example.org''])) \<and>
   map_sum id (map_option category)
     (fst (verify_email prompting_env ''someone@gmail.com'' (engine_init 10 60)))
     = Inr (Some VALID)"
proof -
  have 1: "is_deliverable (fst (verify_smtp (smtp_session accepting_env)
                                  (random_smtp accepting_env @ ''@'' @ ''example.org'')
                                  [''mx1.example.org'']))"
    by (simp add: smtp_eval)
  have 2: "map_sum id category
             (fst (verify_email_smtp accepting_env ''anything@example.org'' (engine_init 10 60)))
             = Inr VALID"
    "map_sum id reason
       (fst (verify_email_smtp accepting_env ''anything@example.org'' (engine_init 10 60)))
       = Inr ''Email verified via SMTP''"
    by (simp_all add: smtp_eval)
  have 3: "catch_all_detection prompting_env"
    "is_deliverable (fst (verify_smtp (smtp_session prompting_env)
                            (random_smtp prompting_env @ ''@'' @ ''gmail.com'')
                            [''mx1.example.org'']))"
    by (simp_all add: smtp_eval prompting_env_def)
  have 4: "map_sum id (map_option category)
             (fst (verify_email prompting_env ''someone@gmail.com'' (engine_init 10 60)))
             = Inr (Some VALID)"
    by (simp add: engine_eval smtp_eval strategy_eval)
  from 1 2 3 4 show ?thesis by simp
qed

text \<open>
  C3, as the code has it.  When catch-all detection is enabled and the SMTP probe of the
  synthesized random local part at domain \<open>d\<close> is accepted (250), the SMTP verification of
  an address of \<open>d\<close> never gives VALID: an accepted real address is RISKY with reason
  "Domain has catch-all configuration".
\<close>

theorem catch_all_downgrades_smtp_valid:
  assumes en: "catch_all_detection E"
    and d: "split_domain a = Inr d"
    and g: "fst (get_mx_records E d (rate_limit_gate d s)) = mxs"
    and ca: "is_deliverable (fst (verify_smtp (smtp_session E) (random_smtp E @ ''@'' @ d) mxs))"
    and run: "verify_email_smtp E a s = (Inr r, s')"
  shows "category r \<noteq> VALID \<and>
         (is_deliverable (fst (verify_smtp (smtp_session E) a mxs)) \<longrightarrow>
            category r = RISKY \<and> reason r = ''Domain has catch-all configuration'')"
proof -
  obtain s2 where g': "get_mx_records E d (rate_limit_gate d s) = (mxs, s2)"
    using g by (cases "get_mx_records E d (rate_limit_gate d s)") auto
  from ca have ne: "mxs \<noteq> []" by (auto simp: verify_smtp_def)
  from verify_email_smtp_run [OF d g' ne] en ca run
  have "r = (if is_deliverable (fst (verify_smtp (smtp_session E) a mxs)) then
               mk_result a RISKY ''Domain has catch-all configuration'' d
                 (Some [(''smtp_result'',
                         PDict (smtp_result_dict (fst (verify_smtp (smtp_session E) a mxs)))),
                        (''is_catch_all'', PBool True)]) s2
             else if smtp_reason (fst (verify_smtp (smtp_session E) a mxs))
                       = Some ''Mailbox unavailable'' then
               mk_result a RISKY ''Mailbox unavailable (may not indicate invalid email)'' d
                 (Some (smtp_result_dict (fst (verify_smtp (smtp_session E) a mxs)))) s2
             else mk_result a INVALID
                    (''Email verification failed: '' @
                       opt_str (smtp_reason (fst (verify_smtp (smtp_session E) a mxs)))) d
                    (Some (smtp_result_dict (fst (verify_smtp (smtp_session E) a mxs)))) s2)"
    by (auto simp: Let_def)
  then show ?thesis
    by (simp add: mk_result_def category_defs)
qed

theorem catch_all_downgrades_smtp_valid_witness:
  "catch_all_detection detecting_env \<and>
   split_domain ''anything@example.org'' = Inr ''example.org'' \<and>
   is_deliverable (fst (verify_smtp (smtp_session detecting_env)
                          (random_smtp detecting_env @ ''@'' @ ''example.org'')
                          [''mx1.example.org''])) \<and>
   is_deliverable (fst (verify_smtp (smtp_session detecting_env) ''anything@example.org''
                          [''mx1.example.org''])) \<and>
   map_sum id category
     (fst (verify_email_smtp detecting_env ''anything@example.org'' (engine_init 10 60)))
     = Inr RISKY \<and>
   map_sum id reason
     (fst (verify_email_smtp detecting_env ''anything@example.org'' (engine_init 10 60)))
     = Inr ''Domain has catch-all configuration''"
proof -
  let ?a = "''anything@example.org''" and ?d = "''example.org''" and ?s = "engine_init 10 60"
  have en: "catch_all_detection detecting_env" by (simp add: smtp_eval)
  have d: "split_domain ?a = Inr ?d" by (simp add: split_domain_def)
  have g: "fst (get_mx_records detecting_env ?d (rate_limit_gate ?d ?s)) = [''mx1.example.org'']"
    by (simp add: smtp_eval)
  have ca: "is_deliverable (fst (verify_smtp (smtp_session detecting_env)
                                   (random_smtp detecting_env @ ''@'' @ ?d) [''mx1.example.org'']))"
    by (simp add: smtp_eval)
  have real: "is_deliverable (fst (verify_smtp (smtp_session detecting_env) ?a
                                     [''mx1.example.org'']))"
    by (simp add: smtp_eval)
  obtain x s' where run: "verify_email_smtp detecting_env ?a ?s = (x, s')"
    by (cases "verify_email_smtp detecting_env ?a ?s")
  then obtain r where r: "x = Inr r" by (auto simp: smtp_eval)
  from catch_all_downgrades_smtp_valid [OF en d g ca run [unfolded r]] real
  have "category r = RISKY \<and> reason r = ''Domain has catch-all configuration''" by simp
  with en d ca real run r show ?thesis by simp
qed

section \<open>Properties of the rate-limit gate\<close>

lemma get_backoff_time_after_check:
  "fst (is_rate_limited rl d now) \<Longrightarrow>
   get_backoff_time (snd (is_rate_limited rl d now)) d now = get_backoff_time rl d now"
  by (auto simp: is_rate_limited_def get_backoff_time_def Let_def split: option.splits if_splits)

lemma gate_trace_events: "trace (rate_limit_gate d s) = trace s @ gate_events d s"
  by (simp add: gate_trace gate_events_def get_backoff_time_after_check)

lemma gate_clock:
  "clock (rate_limit_gate d s) =
     clock s + (if fst (is_rate_limited (rate_limiter s) d (clock s))
                then timedelta_seconds (get_backoff_time (rate_limiter s) d (clock s)) else 0)"
proof -
  obtain lim rl1 where i: "is_rate_limited (rate_limiter s) d (clock s) = (lim, rl1)"
    by (cases "is_rate_limited (rate_limiter s) d (clock s)")
  from get_backoff_time_after_check [of "rate_limiter s" d "clock s"] i
  have "lim \<Longrightarrow> get_backoff_time rl1 d (clock s) = get_backoff_time (rate_limiter s) d (clock s)"
    by simp
  with i show ?thesis by (simp add: rate_limit_gate_def Let_def)
qed

lemma gate_records:
  "\<exists>ts. request_history (rate_limiter (rate_limit_gate d s)) d
           = Some (ts @ [clock (rate_limit_gate d s)])"
  by (auto simp: rate_limit_gate_def Let_def add_request_def split: prod.splits)

text \<open>What follows the gate in a probe has no event of the limiter.\<close>

lemma smtp_event_not_limiter: "is_smtp_event ev \<Longrightarrow> \<not> is_limiter_event ev"
  by (cases ev) (simp_all add: is_smtp_event_def is_limiter_event_def)

lemma try_mx_events:
  "ev \<in> set (snd (try_mx sess rcpt mx k result)) \<Longrightarrow> is_smtp_event ev"
proof (induction sess rcpt mx k result rule: try_mx.induct)
  case (1 sess rcpt mx retry_count result)
  then show ?case
    by (subst (asm) (2) try_mx.simps)
       (auto simp: Let_def is_smtp_event_def split: if_splits smtp_outcome.splits prod.splits)
qed

lemma mx_loop_events:
  "ev \<in> set (snd (mx_loop sess rcpt mxs result)) \<Longrightarrow> is_smtp_event ev"
proof (induction mxs arbitrary: result)
  case Nil
  then show ?case by simp
next
  case (Cons mx mxs)
  obtain x evs where t: "try_mx (sess mx) rcpt mx 0 result = (x, evs)"
    by (cases "try_mx (sess mx) rcpt mx 0 result")
  have e: "ev \<in> set evs \<Longrightarrow> is_smtp_event ev"
    using try_mx_events [of ev "sess mx" rcpt mx 0 result] t by simp
  show ?case
  proof (cases x)
    case (Return r)
    with t Cons.prems e show ?thesis by simp
  next
    case (Break r)
    obtain y evs1 where l: "mx_loop sess rcpt mxs r = (y, evs1)"
      by (cases "mx_loop sess rcpt mxs r")
    with t Break Cons.prems e Cons.IH [of r] show ?thesis by auto
  qed
qed

lemma verify_smtp_events:
  assumes "ev \<in> set (snd (verify_smtp sess addr mxs))"
  shows "\<not> is_limiter_event ev"
proof -
  let ?r0 = "\<lparr>is_deliverable = False, smtp_check = False, smtp_reason = None, mx_used = None\<rparr>"
  obtain x evs where l: "mx_loop (sess addr) addr mxs ?r0 = (x, evs)"
    by (cases "mx_loop (sess addr) addr mxs ?r0")
  from assms have ne: "mxs \<noteq> []" by (auto simp: verify_smtp_def)
  with assms l have "ev \<in> set (snd (mx_loop (sess addr) addr mxs ?r0))"
    by (cases x) (auto simp: verify_smtp_def Let_def split: if_splits)
  then have "is_smtp_event ev" by (rule mx_loop_events)
  then show ?thesis by (rule smtp_event_not_limiter)
qed

lemma api_request_events:
  "ev \<in> set (snd (api_request post addr k)) \<Longrightarrow> \<not> is_limiter_event ev"
proof (induction post addr k rule: api_request.induct)
  case (1 post addr retry_count)
  then show ?case
    by (subst (asm) (2) api_request.simps)
       (auto simp: Let_def is_limiter_event_def split: if_splits http_outcome.splits prod.splits)
qed

lemma get_mx_records_limiter:
  "get_mx_records E d s = (mxs, s2) \<Longrightarrow>
   \<exists>pre. trace s2 = trace s @ pre \<and> (\<forall>ev \<in> set pre. \<not> is_limiter_event ev) \<and>
         rate_limiter s2 = rate_limiter s \<and> clock s2 = clock s"
  by (auto simp: get_mx_records_def Let_def is_limiter_event_def split: option.splits)

lemma check_catch_all_limiter:
  assumes "check_catch_all E d s = (ca, s3)"
  shows "\<exists>evs. trace s3 = trace s @ evs \<and> (\<forall>ev \<in> set evs. \<not> is_limiter_event ev) \<and>
           rate_limiter s3 = rate_limiter s \<and> clock s3 = clock s"
proof (cases "catch_all_detection E")
  case False
  with assms show ?thesis by (simp add: check_catch_all_def)
next
  case True
  obtain mxs s1 where g: "get_mx_records E d s = (mxs, s1)"
    by (cases "get_mx_records E d s")
  from get_mx_records_limiter [OF g] obtain pre where
    p: "trace s1 = trace s @ pre" "\<forall>ev \<in> set pre. \<not> is_limiter_event ev"
       "rate_limiter s1 = rate_limiter s" "clock s1 = clock s" by blast
  show ?thesis
  proof (cases "mxs = []")
    case e: True
    with assms True g p show ?thesis by (auto simp: check_catch_all_def Let_def)
  next
    case ne: False
    let ?v = "verify_smtp (smtp_session E) (random_smtp E @ ''@'' @ d) mxs"
    from assms True g ne have s3: "s3 = s1\<lparr>trace := trace s1 @ snd ?v\<rparr>"
      by (auto simp: check_catch_all_def Let_def split: prod.splits)
    have "\<forall>ev \<in> set (pre @ snd ?v). \<not> is_limiter_event ev"
      using p(2) verify_smtp_events [of _ "smtp_session E" "random_smtp E @ ''@'' @ d" mxs]
      by auto
    moreover have "trace s3 = trace s @ (pre @ snd ?v)" using s3 p(1) by simp
    moreover have "rate_limiter s3 = rate_limiter s" "clock s3 = clock s" using s3 p by simp_all
    ultimately show ?thesis by blast
  qed
qed

lemma verify_email_smtp_after_gate:
  assumes d: "split_domain a = Inr d"
  shows "(\<exists>evs. trace (snd (verify_email_smtp E a s)) = trace (rate_limit_gate d s) @ evs \<and>
                (\<forall>ev \<in> set evs. \<not> is_limiter_event ev)) \<and>
         rate_limiter (snd (verify_email_smtp E a s)) = rate_limiter (rate_limit_gate d s) \<and>
         clock (snd (verify_email_smtp E a s)) = clock (rate_limit_gate d s)"
proof -
  let ?g = "rate_limit_gate d s"
  obtain mxs s2 where g: "get_mx_records E d ?g = (mxs, s2)"
    by (cases "get_mx_records E d ?g")
  from get_mx_records_limiter [OF g] obtain pre where
    p: "trace s2 = trace ?g @ pre" "\<forall>ev \<in> set pre. \<not> is_limiter_event ev"
       "rate_limiter s2 = rate_limiter ?g" "clock s2 = clock ?g" by blast
  show ?thesis
  proof (cases "mxs = []")
    case True
    with d g p show ?thesis by (auto simp: verify_email_smtp_def Let_def)
  next
    case False
    obtain ca s3 where c: "check_catch_all E d s2 = (ca, s3)"
      by (cases "check_catch_all E d s2")
    from check_catch_all_limiter [OF c] obtain evs where
      e: "trace s3 = trace s2 @ evs" "\<forall>ev \<in> set evs. \<not> is_limiter_event ev"
         "rate_limiter s3 = rate_limiter s2" "clock s3 = clock s2" by blast
    let ?v = "verify_smtp (smtp_session E) a mxs"
    have s: "snd (verify_email_smtp E a s) = s3\<lparr>trace := trace s3 @ snd ?v\<rparr>"
      using d g c False by (auto simp: verify_email_smtp_def Let_def split: prod.splits)
    have "\<forall>ev \<in> set (pre @ evs @ snd ?v). \<not> is_limiter_event ev"
      using p(2) e(2) verify_smtp_events [of _ "smtp_session E" a mxs] by auto
    moreover have "trace (snd (verify_email_smtp E a s)) = trace ?g @ (pre @ evs @ snd ?v)"
      using s p(1) e(1) by simp
    moreover have "rate_limiter (snd (verify_email_smtp E a s)) = rate_limiter ?g"
      "clock (snd (verify_email_smtp E a s)) = clock ?g"
      using s p e by simp_all
    ultimately show ?thesis by blast
  qed
qed

lemma verify_microsoft_api_after_gate:
  assumes d: "split_domain a = Inr d" and en: "microsoft_api E"
  shows "(\<exists>evs. trace (snd (verify_microsoft_api E a s)) = trace (rate_limit_gate d s) @ evs \<and>
                (\<forall>ev \<in> set evs. \<not> is_limiter_event ev)) \<and>
         request_history (rate_limiter (snd (verify_microsoft_api E a s)))
           = request_history (rate_limiter (rate_limit_gate d s)) \<and>
         clock (snd (verify_microsoft_api E a s)) = clock (rate_limit_gate d s)"
proof -
  let ?g = "rate_limit_gate d s"
  obtain resp evs where r: "api_request (api_post E a) a 0 = (resp, evs)"
    by (cases "api_request (api_post E a) a 0")
  have q: "\<forall>ev \<in> set evs. \<not> is_limiter_event ev"
    using api_request_events [of _ "api_post E a" a 0] r by simp
  have "trace (snd (verify_microsoft_api E a s)) = trace ?g @ evs"
    "request_history (rate_limiter (snd (verify_microsoft_api E a s)))
       = request_history (rate_limiter ?g)"
    "clock (snd (verify_microsoft_api E a s)) = clock ?g"
    using d en r
    by (auto simp: verify_microsoft_api_def Let_def set_backoff_def split: option.splits)
  with q show ?thesis by blast
qed

lemma verify_login_after_gate:
  assumes d: "split_domain a = Inr d"
  shows "trace (snd (verify_login E a p u b s))
           = trace (rate_limit_gate d s) @ [BrowserSession a u b] \<and>
         rate_limiter (snd (verify_login E a p u b s)) = rate_limiter (rate_limit_gate d s) \<and>
         clock (snd (verify_login E a p u b s)) = clock (rate_limit_gate d s)"
  using d by (auto simp: verify_login_def Let_def split: sum.splits)

text \<open>
  C7, as the code has it.  Each call of the SMTP probe \<open>verify_email_smtp\<close>, of the API
  probe \<open>verify_microsoft_api\<close> (when the API is enabled) and of the browser probe
  \<open>_verify_login\<close> on an address \<open>a@d\<close> begins by consulting the limiter, once.  If the
  limiter answers "limited", the probe asks for the remaining backoff and sleeps that many
  seconds; it does not ask again.  In either case it then records the request, at the time
  reached, and goes on to its DNS lookups, SMTP sessions, HTTP requests or browser session:
  the rest of the call contains no check, no sleep and no recording, and leaves the recorded
  requests as they are.
\<close>

theorem probes_gate_once:
  assumes "split_domain a = Inr d"
  shows "trace (rate_limit_gate d s) = trace s @
           (if fst (is_rate_limited (rate_limiter s) d (clock s))
            then [RL_check d, RL_backoff d,
                  Sleep (get_backoff_time (rate_limiter s) d (clock s)), RL_record d]
            else [RL_check d, RL_record d]) \<and>
         clock (rate_limit_gate d s) =
           clock s + (if fst (is_rate_limited (rate_limiter s) d (clock s))
                      then timedelta_seconds (get_backoff_time (rate_limiter s) d (clock s))
                      else 0) \<and>
         (\<exists>ts. request_history (rate_limiter (rate_limit_gate d s)) d
                = Some (ts @ [clock (rate_limit_gate d s)])) \<and>
         (\<exists>evs. trace (snd (verify_email_smtp E a s)) = trace (rate_limit_gate d s) @ evs \<and>
                (\<forall>ev \<in> set evs. \<not> is_limiter_event ev)) \<and>
         rate_limiter (snd (verify_email_smtp E a s)) = rate_limiter (rate_limit_gate d s) \<and>
         (microsoft_api E \<longrightarrow>
            (\<exists>evs. trace (snd (verify_microsoft_api E a s)) = trace (rate_limit_gate d s) @ evs \<and>
                   (\<forall>ev \<in> set evs. \<not> is_limiter_event ev)) \<and>
            request_history (rate_limiter (snd (verify_microsoft_api E a s)))
              = request_history (rate_limiter (rate_limit_gate d s))) \<and>
         trace (snd (verify_login E a p u b s))
           = trace (rate_limit_gate d s) @ [BrowserSession a u b] \<and>
         rate_limiter (snd (verify_login E a p u b s)) = rate_limiter (rate_limit_gate d s)"
proof -
  note g = gate_trace_events [of d s, unfolded gate_events_def] gate_clock [of d s]
    gate_records [of d s]
  note smtp = verify_email_smtp_after_gate [OF assms, of E s]
  note login = verify_login_after_gate [OF assms, of E p u b s]
  have api: "(\<exists>evs. trace (snd (verify_microsoft_api E a s)) = trace (rate_limit_gate d s) @ evs \<and>
                   (\<forall>ev \<in> set evs. \<not> is_limiter_event ev)) \<and>
            request_history (rate_limiter (snd (verify_microsoft_api E a s)))
              = request_history (rate_limiter (rate_limit_gate d s))"
    if "microsoft_api E"
    using verify_microsoft_api_after_gate [OF assms that, of s] by blast
  from g smtp login api show ?thesis by blast
qed

text \<open>
  C7 as stated fails.  With ten requests in the window and no backoff the limiter answers
  "limited", the remaining backoff is 0, the probe sleeps 0 seconds and records its request
  with no second check, although the limiter still answers "limited" (eleven requests in the
  window).  And not every probe passes the limiter: for an address of a domain with no known
  provider the engine holds its SMTP session straight from \<open>_verify_custom_domain_email\<close>,
  with no check and no recorded request.
\<close>

theorem no_recheck_counterexample:
  "fst (is_rate_limited (rate_limiter saturated_engine) ''example.org'' (clock saturated_engine)) \<and>
   trace (rate_limit_gate ''example.org'' saturated_engine)
     = [RL_check ''example.org'', RL_backoff ''example.org'', Sleep 0, RL_record ''example.org''] \<and>
   recent_requests (rate_limiter (rate_limit_gate ''example.org'' saturated_engine))
     ''example.org'' (clock (rate_limit_gate ''example.org'' saturated_engine)) = 11 \<and>
   fst (is_rate_limited (rate_limiter (rate_limit_gate ''example.org'' saturated_engine))
          ''example.org'' (clock (rate_limit_gate ''example.org'' saturated_engine))) \<and>
   trace (snd (verify_email rejecting_env ''user@example.org'' (engine_init 10 60)))
     = [DnsLookup ''example.org'',
        SmtpSession ''user@example.org'' ''mx1.example.org'' (Reply 550 ''5.1.1 user unknown'')] \<and>
   request_history
     (rate_limiter (snd (verify_email rejecting_env ''user@example.org'' (engine_init 10 60))))
     ''example.org'' = None"
proof -
  have 1: "fst (is_rate_limited (rate_limiter saturated_engine) ''example.org''
                  (clock saturated_engine)) \<and>
   trace (rate_limit_gate ''example.org'' saturated_engine)
     = [RL_check ''example.org'', RL_backoff ''example.org'', Sleep 0, RL_record ''example.org''] \<and>
   recent_requests (rate_limiter (rate_limit_gate ''example.org'' saturated_engine))
     ''example.org'' (clock (rate_limit_gate ''example.org'' saturated_engine)) = 11 \<and>
   fst (is_rate_limited (rate_limiter (rate_limit_gate ''example.org'' saturated_engine))
          ''example.org'' (clock (rate_limit_gate ''example.org'' saturated_engine)))"
    by (simp add: saturated_engine_def engine_init_def rate_limit_gate_def limiter_eval Let_def)
  have 2: "trace (snd (verify_email rejecting_env ''user@example.org'' (engine_init 10 60)))
     = [DnsLookup ''example.org'',
        SmtpSession ''user@example.org'' ''mx1.example.org'' (Reply 550 ''5.1.1 user unknown'')]"
    "request_history
       (rate_limiter (snd (verify_email rejecting_env ''user@example.org'' (engine_init 10 60))))
       ''example.org'' = None"
    by (simp_all add: engine_eval smtp_eval strategy_eval contains_def
                      verify_custom_domain_email_def)
  from 1 2 show ?thesis by simp
qed

lemma split_example: "split_domain ''user@example.org'' = Inr ''example.org''"
  by (simp add: split_domain_def)

theorem probes_gate_once_witness:
  "split_domain ''user@example.org'' = Inr ''example.org'' \<and>
   microsoft_api (quiet_env\<lparr>microsoft_api := True\<rparr>) \<and>
   trace (rate_limit_gate ''example.org'' saturated_engine)
     = trace saturated_engine @
         [RL_check ''example.org'', RL_backoff ''example.org'', Sleep 0,
          RL_record ''example.org''] \<and>
   (\<exists>evs. trace (snd (verify_email_smtp (quiet_env\<lparr>microsoft_api := True\<rparr>)
                        ''user@example.org'' saturated_engine))
            = trace (rate_limit_gate ''example.org'' saturated_engine) @ evs \<and>
          (\<forall>ev \<in> set evs. \<not> is_limiter_event ev)) \<and>
   (\<exists>evs. trace (snd (verify_microsoft_api (quiet_env\<lparr>microsoft_api := True\<rparr>)
                        ''user@example.org'' saturated_engine))
            = trace (rate_limit_gate ''example.org'' saturated_engine) @ evs \<and>
          (\<forall>ev \<in> set evs. \<not> is_limiter_event ev)) \<and>
   trace (snd (verify_login (quiet_env\<lparr>microsoft_api := True\<rparr>) ''user@example.org''
                 ''yahoo.com'' ''https://login.yahoo.com'' ''chrome'' saturated_engine))
     = trace (rate_limit_gate ''example.org'' saturated_engine) @
         [BrowserSession ''user@example.org'' ''https://login.yahoo.com'' ''chrome'']"
proof -
  have lim: "fst (is_rate_limited (rate_limiter saturated_engine) ''example.org''
                   (clock saturated_engine))"
    by (simp add: saturated_engine_def engine_init_def limiter_eval)
  have w: "get_backoff_time (rate_limiter saturated_engine) ''example.org''
             (clock saturated_engine) = 0"
    by (simp add: saturated_engine_def engine_init_def limiter_eval)
  have en: "microsoft_api (quiet_env\<lparr>microsoft_api := True\<rparr>)" by simp
  note th = probes_gate_once [OF split_example, of saturated_engine
          "quiet_env\<lparr>microsoft_api := True\<rparr>"
          "''yahoo.com''" "''https://login.yahoo.com''" "''chrome''"]
  from th lim w have g: "trace (rate_limit_gate ''example.org'' saturated_engine)
     = trace saturated_engine @
         [RL_check ''example.org'', RL_backoff ''example.org'', Sleep 0,
          RL_record ''example.org'']"
    by simp
  from th en g split_example show ?thesis by blast
qed

section \<open>The engine after a first verification\<close>

lemma engine_after_first_eq:
  "engine_after_first =
     (engine_init 10 60)
       \<lparr>result_cache := (\<lambda>_. None)(''a@example.com'' \<mapsto>
          \<lparr>email = ''a@example.com'', category = ''valid'', reason = ''Domain in whitelist'',
           provider = ''example.com'', details = None, timestamp = 0\<rparr>),
        csv_files := (\<lambda>_. [])(''valid'' :=
          [(''a@example.com'', ''example.com'', 0, ''Domain in whitelist'', [])]),
        data_files := (\<lambda>_. [])(''valid'' := [''a@example.com''])\<rparr>"
  by (simp add: engine_after_first_def engine_eval)

section \<open>What the probes and the strategies change\<close>

lemma probe_frame_refl [simp]: "probe_frame s s"
  by (simp add: probe_frame_def)

lemma probe_frame_trans: "probe_frame s m \<Longrightarrow> probe_frame m s' \<Longrightarrow> probe_frame s s'"
  by (simp add: probe_frame_def)

lemma probe_frame_trace [simp]: "probe_frame s (s\<lparr>trace := t\<rparr>)"
  by (simp add: probe_frame_def)

lemma strategy_post_probe: "probe_frame s s' \<Longrightarrow> strategy_post a s s'"
  by (auto simp: strategy_post_def)

lemma strategy_post_finish: "probe_frame s m \<Longrightarrow> strategy_post a s (snd (finish a r m))"
  by (auto simp: strategy_post_def)

lemma strategy_post_trans:
  "probe_frame s m \<Longrightarrow> strategy_post a m s' \<Longrightarrow> strategy_post a s s'"
  by (auto simp: strategy_post_def dest: probe_frame_trans)

lemma gate_frame: "probe_frame s (rate_limit_gate d s)"
  by (simp add: probe_frame_def rate_limit_gate_def Let_def split: prod.splits)

lemma get_mx_frame: "probe_frame s (snd (get_mx_records E d s))"
  by (simp add: probe_frame_def get_mx_records_def Let_def split: option.splits)

lemma check_catch_all_frame: "probe_frame s (snd (check_catch_all E d s))"
  using get_mx_frame [of s E d]
  by (auto simp: probe_frame_def check_catch_all_def Let_def split: prod.splits)

lemma verify_email_smtp_frame: "probe_frame s (snd (verify_email_smtp E a s))"
proof (cases "split_domain a")
  case (Inl e)
  then show ?thesis by (simp add: verify_email_smtp_def)
next
  case (Inr d)
  obtain mxs s2 where g: "get_mx_records E d (rate_limit_gate d s) = (mxs, s2)"
    by (cases "get_mx_records E d (rate_limit_gate d s)")
  obtain ca s3 where c: "check_catch_all E d s2 = (ca, s3)"
    by (cases "check_catch_all E d s2")
  from gate_frame [of s d] get_mx_frame [of "rate_limit_gate d s" E d] g
  have 2: "probe_frame s s2" by (auto dest: probe_frame_trans)
  from check_catch_all_frame [of s2 E d] c have "probe_frame s2 s3" by simp
  with 2 have 3: "probe_frame s s3" by (rule probe_frame_trans)
  from Inr g c 2 3 show ?thesis
    by (auto simp: verify_email_smtp_def Let_def probe_frame_def split: prod.splits)
qed

lemma verify_login_frame: "probe_frame s (snd (verify_login E a p u b s))"
  using gate_frame
  by (auto simp: verify_login_def Let_def probe_frame_def split: sum.splits)

lemma verify_microsoft_api_frame: "probe_frame s (snd (verify_microsoft_api E a s))"
proof (cases "microsoft_api E")
  case False
  then show ?thesis by (simp add: verify_microsoft_api_def)
next
  case True
  show ?thesis
  proof (cases "split_domain a")
    case (Inl e)
    with True show ?thesis by (simp add: verify_microsoft_api_def)
  next
    case (Inr d)
    with True gate_frame [of s d] show ?thesis
      by (auto simp: verify_microsoft_api_def Let_def probe_frame_def
               split: prod.splits option.splits)
  qed
qed

lemma check_microsoft_api_catch_all_frame:
  "probe_frame s (snd (check_microsoft_api_catch_all E d s))"
proof -
  let ?v = "''admin@'' @ d" and ?t = "random_api E @ ''@'' @ d"
  obtain x s1 where a: "verify_microsoft_api E ?v s = (x, s1)"
    by (cases "verify_microsoft_api E ?v s")
  obtain y s2 where b: "verify_microsoft_api E ?t s1 = (y, s2)"
    by (cases "verify_microsoft_api E ?t s1")
  from verify_microsoft_api_frame [of s E ?v] a have 1: "probe_frame s s1" by simp
  from verify_microsoft_api_frame [of s1 E ?t] b have 2: "probe_frame s1 s2" by simp
  from 1 2 have 3: "probe_frame s s2" by (rule probe_frame_trans)
  from a b 1 3 show ?thesis
    by (cases x; cases y) (simp_all add: check_microsoft_api_catch_all_def Let_def)
qed

lemma identify_provider_frame: "probe_frame s (snd (identify_provider E a s))"
proof (cases "split_domain a")
  case (Inl e)
  then show ?thesis by (simp add: identify_provider_def)
next
  case (Inr d)
  with get_mx_frame [of s E d] show ?thesis
    by (cases "get_mx_records E d s")
       (auto simp: identify_provider_def Let_def split: option.splits)
qed

lemma snd_returning [simp]: "snd (returning x) = snd x"
  by (cases x) (auto simp: returning_def split: sum.splits)

lemma fst_returning_not_exhausted [simp]: "fst (returning x) \<noteq> Inr (Exhausted l)"
  by (cases x) (auto simp: returning_def split: sum.splits)

lemma returning_eq: "returning z = (x, s') \<Longrightarrow> x = fst (returning z) \<and> s' = snd z"
  using snd_returning [of z] by (cases "returning z") simp

lemma snd_some_result [simp]: "snd (some_result x) = snd x"
  by (cases x) (auto simp: some_result_def split: sum.splits)

lemma finish_last_post: "probe_frame s m \<Longrightarrow> strategy_post a s (snd (finish_last a l m))"
  by (cases l) (auto simp: finish_last_def intro: strategy_post_probe strategy_post_finish)

lemma google_browser_loop_post:
  "google_browser_loop E a p u bs l s = (x, s') \<Longrightarrow>
   strategy_post a s s' \<and> (\<forall>l'. x = Inr (Exhausted l') \<longrightarrow> probe_frame s s')"
proof (induction bs arbitrary: l s)
  case Nil
  then show ?case by (auto intro: strategy_post_probe)
next
  case (Cons b bs)
  obtain y s1 where v: "verify_login E a p u b s = (y, s1)"
    by (cases "verify_login E a p u b s")
  from verify_login_frame [of s E a p u b] v have f: "probe_frame s s1" by simp
  show ?case
  proof (cases y)
    case (Inl e)
    with Cons.prems v f show ?thesis by (auto intro: strategy_post_probe)
  next
    case (Inr result)
    consider (def) "definitive result"
      | (acc) "\<not> definitive result" "category result = RISKY \<and> reason result = could_not_determine"
      | (go) "\<not> definitive result" "\<not> (category result = RISKY \<and> reason result = could_not_determine)"
      by blast
    then show ?thesis
    proof cases
      case def
      with Cons.prems v Inr have "x = fst (returning (finish a result s1))"
        "s' = snd (finish a result s1)" by (auto dest: returning_eq)
      with f show ?thesis by (auto intro: strategy_post_finish)
    next
      case acc
      with Cons.prems v Inr
      have "x = fst (returning (finish a (accepted_result a p result s1) s1))"
        "s' = snd (finish a (accepted_result a p result s1) s1)" by (auto dest: returning_eq)
      with f show ?thesis by (auto intro: strategy_post_finish)
    next
      case go
      with Cons.prems v Inr
      have "google_browser_loop E a p u bs (Some result) s1 = (x, s')" by auto
      from Cons.IH [OF this] f show ?thesis
        by (auto intro: strategy_post_trans probe_frame_trans)
    qed
  qed
qed

lemma microsoft_browser_loop_post:
  "microsoft_browser_loop E a p u all bs l s = (x, s') \<Longrightarrow>
   strategy_post a s s' \<and> (\<forall>l'. x = Inr (Exhausted l') \<longrightarrow> probe_frame s s')"
proof (induction bs arbitrary: l s)
  case Nil
  then show ?case by (auto intro: strategy_post_probe)
next
  case (Cons b bs)
  obtain y s1 where v: "verify_login E a p u b s = (y, s1)"
    by (cases "verify_login E a p u b s")
  from verify_login_frame [of s E a p u b] v have f: "probe_frame s s1" by simp
  show ?case
  proof (cases y)
    case (Inl e)
    with Cons.prems v f show ?thesis by (auto intro: strategy_post_probe)
  next
    case (Inr result)
    let ?fb = "(category result = RISKY \<and> reason result = could_not_determine) \<or>
               (category result = CUSTOM \<and> reason result = ''Redirected to custom login page'')"
    let ?b2 = "all ! ((py_index b all + 1) mod length all)"
    consider (def) "definitive result"
      | (fb) "\<not> definitive result" ?fb
      | (go) "\<not> definitive result" "\<not> ?fb"
      by blast
    then show ?thesis
    proof cases
      case def
      with Cons.prems v Inr have "x = fst (returning (finish a result s1))"
        "s' = snd (finish a result s1)" by (auto dest: returning_eq)
      with f show ?thesis by (auto intro: strategy_post_finish)
    next
      case go
      with Cons.prems v Inr
      have "microsoft_browser_loop E a p u all bs (Some result) s1 = (x, s')" by auto
      from Cons.IH [OF this] f show ?thesis
        by (auto intro: strategy_post_trans probe_frame_trans)
    next
      case fb
      obtain z s2 where w: "verify_login E a p ''https://login.live.com'' ?b2 s1 = (z, s2)"
        by (cases "verify_login E a p ''https://login.live.com'' ?b2 s1")
      from verify_login_frame [of s1 E a p "''https://login.live.com''" ?b2] w f
      have f2: "probe_frame s s2" by (auto dest: probe_frame_trans)
      show ?thesis
      proof (cases z)
        case (Inl e)
        with Cons.prems v Inr fb w f2 show ?thesis by (auto intro: strategy_post_probe)
      next
        case dr: (Inr direct_result)
        consider (ddef) "definitive direct_result"
          | (dacc) "\<not> definitive direct_result"
              "category direct_result = RISKY \<and> reason direct_result = could_not_determine"
          | (dnext) "\<not> definitive direct_result"
              "\<not> (category direct_result = RISKY \<and> reason direct_result = could_not_determine)"
          by blast
        then show ?thesis
        proof cases
          case ddef
          with Cons.prems v Inr fb w dr
          have "x = fst (returning (finish a direct_result s2))"
            "s' = snd (finish a direct_result s2)" by (auto dest: returning_eq)
          with f2 show ?thesis by (auto intro: strategy_post_finish)
        next
          case dacc
          with Cons.prems v Inr fb w dr
          have "x = fst (returning (finish a (accepted_result a p direct_result s2) s2))"
            "s' = snd (finish a (accepted_result a p direct_result s2) s2)" by (auto dest: returning_eq)
          with f2 show ?thesis by (auto intro: strategy_post_finish)
        next
          case dnext
          with Cons.prems v Inr fb w dr
          have "microsoft_browser_loop E a p u all bs (Some result) s2 = (x, s')" by auto
          from Cons.IH [OF this] f2 show ?thesis
            by (auto intro: strategy_post_trans probe_frame_trans)
        qed
      qed
    qed
  qed
qed

lemma smtp_then_last_post: "strategy_post a s (snd (smtp_then_last E a l s))"
proof -
  obtain y s1 where v: "verify_email_smtp E a s = (y, s1)"
    by (cases "verify_email_smtp E a s")
  from verify_email_smtp_frame [of s E a] v have f: "probe_frame s s1" by simp
  with v show ?thesis
    by (cases y)
       (auto simp: smtp_then_last_def intro: strategy_post_probe strategy_post_finish
                   finish_last_post)
qed

lemma other_browser_loop_post:
  "strategy_post a s (snd (other_browser_loop E a p u lb bs s))"
proof (induction bs arbitrary: s)
  case Nil
  then show ?case by (auto intro: strategy_post_probe)
next
  case (Cons b bs)
  obtain y s1 where v: "verify_login E a p u b s = (y, s1)"
    by (cases "verify_login E a p u b s")
  from verify_login_frame [of s E a p u b] v have f: "probe_frame s s1" by simp
  show ?case
  proof (cases y)
    case (Inl e)
    with v f show ?thesis by (auto intro: strategy_post_probe)
  next
    case (Inr result)
    consider (def) "definitive result"
      | (smtp) "\<not> definitive result" "b = lb \<and> category result \<in> set [RISKY, CUSTOM]"
      | (go) "\<not> definitive result" "\<not> (b = lb \<and> category result \<in> set [RISKY, CUSTOM])"
      by blast
    then show ?thesis
    proof cases
      case def
      with v Inr have "snd (other_browser_loop E a p u lb (b # bs) s) = snd (finish a result s1)"
        by (auto split: prod.splits sum.splits)
      with f show ?thesis by (auto intro: strategy_post_finish)
    next
      case go
      with v Inr have "other_browser_loop E a p u lb (b # bs) s
                         = other_browser_loop E a p u lb bs s1" by auto
      with Cons.IH [of s1] f show ?thesis by (auto intro: strategy_post_trans)
    next
      case smtp
      obtain z s2 where w: "verify_email_smtp E a s1 = (z, s2)"
        by (cases "verify_email_smtp E a s1")
      from verify_email_smtp_frame [of s1 E a] w f have f2: "probe_frame s s2"
        by (auto dest: probe_frame_trans)
      show ?thesis
      proof (cases z)
        case (Inl e)
        with v Inr smtp w f2 show ?thesis by (auto intro: strategy_post_probe)
      next
        case sr: (Inr smtp_res)
        with v Inr smtp w
        have "snd (other_browser_loop E a p u lb (b # bs) s)
                = snd (finish a (if definitive smtp_res then smtp_res else result) s2)"
          by (auto split: prod.splits sum.splits)
        with f2 show ?thesis by (auto intro: strategy_post_finish)
      qed
    qed
  qed
qed

lemma verify_other_provider_email_post:
  "strategy_post a s (snd (verify_other_provider_email E a p u s))"
proof (cases "verification_loop_enabled E")
  case True
  show ?thesis
  proof (cases "browsers E")
    case Nil
    with True show ?thesis
      by (auto simp: verify_other_provider_email_def intro: strategy_post_probe)
  next
    case (Cons b bs)
    with True have "verify_other_provider_email E a p u s
                      = other_browser_loop E a p u (last (b # bs)) (b # bs) s"
      by (simp only: verify_other_provider_email_def if_True list.case)
    then show ?thesis by (simp only: other_browser_loop_post)
  qed
next
  case False
  show ?thesis
  proof (cases "browsers E")
    case Nil
    with False show ?thesis
      by (auto simp: verify_other_provider_email_def intro: strategy_post_probe)
  next
    case (Cons b bs)
    obtain y s1 where v: "verify_login E a p u b s = (y, s1)"
      by (cases "verify_login E a p u b s")
    from verify_login_frame [of s E a p u b] v have f: "probe_frame s s1" by simp
    show ?thesis
    proof (cases y)
      case (Inl e)
      with False Cons v f show ?thesis
        by (auto simp: verify_other_provider_email_def intro: strategy_post_probe)
    next
      case (Inr result)
      with False Cons v
      have "snd (verify_other_provider_email E a p u s) = snd (finish a result s1)"
        by (auto simp: verify_other_provider_email_def split: prod.splits sum.splits)
      with f show ?thesis by (auto intro: strategy_post_finish)
    qed
  qed
qed

lemma verify_custom_domain_email_post:
  "strategy_post a s (snd (verify_custom_domain_email E a d mxs s))"
proof -
  obtain ca s1 where c: "check_catch_all E d s = (ca, s1)" by (cases "check_catch_all E d s")
  from check_catch_all_frame [of s E d] c have f: "probe_frame s s1" by simp
  obtain sr evs where v: "verify_smtp (smtp_session E) a mxs = (sr, evs)"
    by (cases "verify_smtp (smtp_session E) a mxs")
  from f have f2: "probe_frame s (s1\<lparr>trace := trace s1 @ evs\<rparr>)"
    by (simp add: probe_frame_def)
  from c v show ?thesis
    by (simp add: verify_custom_domain_email_def Let_def strategy_post_finish [OF f2])
qed

lemma verify_gmail_email_post: "strategy_post a s (snd (verify_gmail_email E a p u s))"
proof -
  obtain y s1 where v: "verify_email_smtp E a s = (y, s1)" by (cases "verify_email_smtp E a s")
  from verify_email_smtp_frame [of s E a] v have f: "probe_frame s s1" by simp
  show ?thesis
  proof (cases y)
    case (Inl e)
    with v f show ?thesis by (auto simp: verify_gmail_email_def intro: strategy_post_probe)
  next
    case (Inr smtp_res)
    show ?thesis
    proof (cases "definitive smtp_res")
      case True
      with v Inr f show ?thesis
        by (auto simp: verify_gmail_email_def intro: strategy_post_finish)
    next
      case False
      obtain x s2 where l: "google_browser_loop E a p u (browsers E) None s1 = (x, s2)"
        by (cases "google_browser_loop E a p u (browsers E) None s1")
      from google_browser_loop_post [OF l]
      have p: "strategy_post a s1 s2" "\<And>l'. x = Inr (Exhausted l') \<Longrightarrow> probe_frame s1 s2"
        by auto
      show ?thesis
      proof (cases x)
        case (Inl e)
        with v Inr False l p f show ?thesis
          by (auto simp: verify_gmail_email_def intro: strategy_post_trans)
      next
        case x: (Inr le)
        show ?thesis
        proof (cases le)
          case (Returned r)
          with v Inr False l p f x show ?thesis
            by (auto simp: verify_gmail_email_def intro: strategy_post_trans)
        next
          case (Exhausted l')
          with p x f have "probe_frame s s2" by (auto dest: probe_frame_trans)
          from finish_last_post [OF this, of a l'] v Inr False l x Exhausted show ?thesis
            by (auto simp: verify_gmail_email_def)
        qed
      qed
    qed
  qed
qed

lemma after_browser_loop_post:
  assumes l: "strategy_post a s1 s2" "\<And>l'. x = Inr (Exhausted l') \<Longrightarrow> probe_frame s1 s2"
    and f: "probe_frame s s1"
  shows "strategy_post a s
           (snd (case (x, s2) of
                   (Inl e, s3) \<Rightarrow> (Inl e, s3)
                 | (Inr (Returned r), s3) \<Rightarrow> (Inr r, s3)
                 | (Inr (Exhausted last_result), s3) \<Rightarrow> smtp_then_last E a last_result s3))"
proof (cases x)
  case (Inl e)
  with l f show ?thesis by (auto intro: strategy_post_trans)
next
  case x: (Inr le)
  show ?thesis
  proof (cases le)
    case (Returned r)
    with l f x show ?thesis by (auto intro: strategy_post_trans)
  next
    case (Exhausted l')
    with l x f have "probe_frame s s2" by (auto dest: probe_frame_trans)
    from strategy_post_trans [OF this smtp_then_last_post [of a s2 E l']] x Exhausted
    show ?thesis by simp
  qed
qed

lemma verify_custom_google_email_post:
  "strategy_post a s (snd (verify_custom_google_email E a p u s))"
proof -
  obtain x s2 where l: "google_browser_loop E a p u (browsers E) None s = (x, s2)"
    by (cases "google_browser_loop E a p u (browsers E) None s")
  from google_browser_loop_post [OF l]
  have p: "strategy_post a s s2" "\<And>l'. x = Inr (Exhausted l') \<Longrightarrow> probe_frame s s2" by auto
  from after_browser_loop_post [OF p probe_frame_refl, where E = E] l show ?thesis
    by (simp add: verify_custom_google_email_def)
qed

lemma verify_microsoft_email_post:
  "strategy_post a s (snd (verify_microsoft_email E a p u d s))"
proof -
  let ?c = "if microsoft_api E then check_microsoft_api_catch_all E d s else (Inr False, s)"
  obtain y s1 where c: "?c = (y, s1)" by (cases ?c)
  from check_microsoft_api_catch_all_frame [of s E d] c have f1: "probe_frame s s1"
    by (auto split: if_splits)
  show ?thesis
  proof (cases y)
    case (Inl e)
    with c f1 show ?thesis
      by (simp add: verify_microsoft_email_def strategy_post_probe)
  next
    case (Inr is_api_catch_all)
    let ?v = "if \<not> is_api_catch_all then verify_microsoft_api E a s1 else (Inr None, s1)"
    obtain z s2 where v: "?v = (z, s2)" by (cases ?v)
    from verify_microsoft_api_frame [of s1 E a] v f1 have f2: "probe_frame s s2"
      by (auto split: if_splits dest: probe_frame_trans)
    show ?thesis
    proof (cases z)
      case (Inl e)
      with c Inr v f2 show ?thesis
        by (simp add: verify_microsoft_email_def strategy_post_probe)
    next
      case z: (Inr api_result)
      let ?d = "case api_result of Some r \<Rightarrow> if definitive r then Some r else None | None \<Rightarrow> None"
      show ?thesis
      proof (cases ?d)
        case (Some r)
        with c Inr v z f2 show ?thesis
          by (simp add: verify_microsoft_email_def strategy_post_finish)
      next
        case None
        obtain x s3 where l: "microsoft_browser_loop E a p u (browsers E) (browsers E) None s2
                                = (x, s3)"
          by (cases "microsoft_browser_loop E a p u (browsers E) (browsers E) None s2")
        from microsoft_browser_loop_post [OF l]
        have p: "strategy_post a s2 s3" "\<And>l'. x = Inr (Exhausted l') \<Longrightarrow> probe_frame s2 s3"
          by auto
        from after_browser_loop_post [OF p f2, where E = E] c Inr v z None l show ?thesis
          by (simp add: verify_microsoft_email_def)
      qed
    qed
  qed
qed

lemma run_strategy_post: "strategy_post a s (snd (run_strategy E a d mxs s))"
proof -
  obtain y s1 where i: "identify_provider E a s = (y, s1)" by (cases "identify_provider E a s")
  from identify_provider_frame [of s E a] i have f: "probe_frame s s1" by simp
  show ?thesis
  proof (cases y)
    case (Inl e)
    with i f show ?thesis by (simp add: run_strategy_def strategy_post_probe)
  next
    case (Inr pl)
    obtain p u where pl: "pl = (p, u)" by (cases pl)
    let ?r = "if p \<in> set microsoft_providers then
                some_result (verify_microsoft_email E a p (opt_str u) d s1)
              else if p = ''gmail.com'' then
                some_result (verify_gmail_email E a p (opt_str u) s1)
              else if p = ''customGoogle'' then
                some_result (verify_custom_google_email E a p (opt_str u) s1)
              else if p = ''custom'' \<or> u = None \<or> u = Some [] then
                some_result (verify_custom_domain_email E a d mxs s1)
              else verify_other_provider_email E a p (opt_str u) s1"
    have "strategy_post a s1 (snd ?r)"
      by (simp add: verify_microsoft_email_post verify_gmail_email_post
                    verify_custom_google_email_post verify_custom_domain_email_post
                    verify_other_provider_email_post)
    with f have "strategy_post a s (snd ?r)" by (rule strategy_post_trans)
    moreover from i Inr pl have "run_strategy E a d mxs s = ?r"
      by (simp only: run_strategy_def prod.case sum.case)
    ultimately show ?thesis by simp
  qed
qed

lemma verify_email_hit:
  "check_email_in_data a s \<noteq> None \<or> result_cache s a \<noteq> None \<Longrightarrow>
   snd (verify_email E a s) = s"
  by (auto simp: verify_email_def split: option.splits)

lemma verify_email_post:
  assumes "check_email_in_data a s = None" "result_cache s a = None"
  shows "strategy_post a s (snd (verify_email E a s))"
proof (cases "validate_format a")
  case False
  with assms show ?thesis
    by (simp add: verify_email_def strategy_post_finish)
next
  case True
  show ?thesis
  proof (cases "split_domain a")
    case (Inl e)
    with assms True show ?thesis by (simp add: verify_email_def strategy_post_probe)
  next
    case (Inr d)
    obtain mxs s1 where g: "get_mx_records E d s = (mxs, s1)" by (cases "get_mx_records E d s")
    from get_mx_frame [of s E d] g have f: "probe_frame s s1" by simp
    from assms True Inr g f run_strategy_post [of a s1 E d mxs] show ?thesis
      by (auto simp: verify_email_def Let_def
               intro: strategy_post_finish strategy_post_trans)
  qed
qed

section \<open>Properties of the result store\<close>

lemma py_lower_categories: "c \<in> set categories \<Longrightarrow> py_lower c = c"
  by (auto simp: categories_def py_lower_def lower_chr_def)

lemma finish_data:
  "data_files (snd (finish a r m)) = data_files m \<or>
   (\<exists>c \<in> set categories.
      data_files (snd (finish a r m)) = (data_files m)(c := data_files m c @ [email r]))"
proof (cases "category r \<in> set categories")
  case False
  then show ?thesis by (simp add: finish_def save_result_def Let_def)
next
  case True
  then show ?thesis
    by (auto simp: finish_def save_result_def add_email_to_data_def Let_def py_lower_categories
             split: prod.splits if_splits)
qed

lemma categories_distinct: "distinct categories"
  by (simp add: categories_def)

lemma sum_count_other:
  "c \<notin> set cs \<Longrightarrow>
   sum_list (map (\<lambda>c'. count_list ((f(c := v)) c') a) cs)
     = sum_list (map (\<lambda>c'. count_list (f c') a) cs)"
  by (induction cs) auto

lemma sum_count_upd:
  "distinct cs \<Longrightarrow>
   sum_list (map (\<lambda>c'. count_list ((f(c := f c @ [e])) c') a) cs)
     \<le> sum_list (map (\<lambda>c'. count_list (f c') a) cs) + 1"
proof (induction cs)
  case Nil
  then show ?case by simp
next
  case (Cons x xs)
  show ?case
  proof (cases "x = c")
    case True
    with Cons.prems have "c \<notin> set xs" by simp
    from sum_count_other [OF this, of f "f c @ [e]" a] True show ?thesis by simp
  next
    case False
    with Cons show ?thesis by simp
  qed
qed

lemma rows_for_append:
  "data_files s' = (data_files s)(c := data_files s c @ [e]) \<Longrightarrow>
   rows_for a s' \<le> rows_for a s + 1"
  using sum_count_upd [OF categories_distinct, of "data_files s" c e a]
  by (simp add: rows_for_def)

lemma rows_for_same: "data_files s' = data_files s \<Longrightarrow> rows_for a s' = rows_for a s"
  by (simp add: rows_for_def)

lemma count_list_0_iff: "count_list xs x = 0 \<longleftrightarrow> x \<notin> set xs"
  by (induction xs) auto

lemma sum_list_0_iff: "sum_list (ns :: nat list) = 0 \<longleftrightarrow> (\<forall>n \<in> set ns. n = 0)"
  by (induction ns) auto

lemma check_email_None_rows: "check_email_in_data a s = None \<longleftrightarrow> rows_for a s = 0"
  by (auto simp: check_email_in_data_def rows_for_def find_None_iff sum_list_0_iff
                 count_list_0_iff)

lemma strategy_post_rows: "strategy_post a s s' \<Longrightarrow> rows_for b s' \<le> rows_for b s + 1"
proof -
  assume "strategy_post a s s'"
  then obtain m where m: "probe_frame s m" "s' = m \<or> (\<exists>r. s' = snd (finish a r m))"
    by (auto simp: strategy_post_def)
  from m(1) have e: "rows_for b m = rows_for b s" by (simp add: rows_for_def probe_frame_def)
  from m(2) show ?thesis
  proof
    assume "s' = m" with e show ?thesis by simp
  next
    assume "\<exists>r. s' = snd (finish a r m)"
    then obtain r where r: "s' = snd (finish a r m)" by blast
    from finish_data [of a r m] show ?thesis
    proof
      assume "data_files (snd (finish a r m)) = data_files m"
      with r e rows_for_same [of s' m b] show ?thesis by simp
    next
      assume "\<exists>c \<in> set categories.
                data_files (snd (finish a r m)) = (data_files m)(c := data_files m c @ [email r])"
      then obtain c where
        "data_files s' = (data_files m)(c := data_files m c @ [email r])" using r by blast
      from rows_for_append [OF this, of b] e show ?thesis by simp
    qed
  qed
qed

lemma verify_email_rows:
  "rows_for a (snd (verify_email E a s)) \<le> max 1 (rows_for a s)"
proof (cases "check_email_in_data a s = None \<and> result_cache s a = None")
  case False
  then have "check_email_in_data a s \<noteq> None \<or> result_cache s a \<noteq> None" by simp
  then have "snd (verify_email E a s) = s" by (rule verify_email_hit)
  then show ?thesis by simp
next
  case True
  then have "rows_for a s = 0" by (simp add: check_email_None_rows)
  moreover from True have "strategy_post a s (snd (verify_email E a s))"
    by (simp add: verify_email_post)
  from strategy_post_rows [OF this, of a] have
    "rows_for a (snd (verify_email E a s)) \<le> rows_for a s + 1" .
  ultimately show ?thesis by simp
qed

lemma verify_repeatedly_rows:
  "rows_for a (verify_repeatedly Es a s) \<le> max 1 (rows_for a s)"
proof (induction Es arbitrary: s)
  case Nil
  then show ?case by simp
next
  case (Cons E Es)
  from Cons.IH [of "snd (verify_email E a s)"] verify_email_rows [of a E s]
  show ?case by simp
qed

lemma verify_repeatedly_present:
  "check_email_in_data a s \<noteq> None \<Longrightarrow> verify_repeatedly Es a s = s"
proof (induction Es)
  case Nil
  then show ?case by simp
next
  case (Cons E Es)
  from Cons.prems have "snd (verify_email E a s) = s" by (intro verify_email_hit) simp
  with Cons show ?case by simp
qed

lemma service_call_engine:
  "login_verifier (snd (service_verify_email E a m svc)) = login_verifier svc \<or>
   login_verifier (snd (service_verify_email E a m svc)) = snd (verify_email E a (login_verifier svc))"
proof -
  have u: "login_verifier (snd (use_login_verifier E a svc))
             = snd (verify_email E a (login_verifier svc))"
    by (cases "verify_email E a (login_verifier svc)")
       (auto simp: use_login_verifier_def Let_def split: sum.splits option.splits)
  show ?thesis
  proof (cases "map_of (service_cache svc) a")
    case (Some cached)
    then show ?thesis by (simp add: service_verify_email_def Let_def)
  next
    case None
    let ?x = "if m = ''login'' \<or> m = ''auto'' then use_login_verifier E a svc
              else if m = ''smtp'' \<and> smtp_verifier svc
                then (Inl bounce_verifier_has_no_verify_email, svc)
              else use_login_verifier E a svc"
    have "login_verifier (snd ?x) = login_verifier svc \<or>
          login_verifier (snd ?x) = snd (verify_email E a (login_verifier svc))"
      using u by simp
    moreover have "login_verifier (snd (service_verify_email E a m svc)) = login_verifier (snd ?x)"
      using None by (cases ?x) (auto simp: service_verify_email_def split: sum.splits)
    ultimately show ?thesis by simp
  qed
qed

lemma service_verify_repeatedly_rows:
  "rows_for a (login_verifier (service_verify_repeatedly cs a svc))
     \<le> max 1 (rows_for a (login_verifier svc))"
proof (induction cs arbitrary: svc)
  case Nil
  then show ?case by simp
next
  case (Cons c cs)
  obtain E m where c: "c = (E, m)" by (cases c)
  let ?svc1 = "snd (service_verify_email E a m svc)"
  from service_call_engine [of E a m svc] verify_email_rows [of a E "login_verifier svc"]
  have "rows_for a (login_verifier ?svc1) \<le> max 1 (rows_for a (login_verifier svc))"
    by auto
  with Cons.IH [of ?svc1] c show ?case by simp
qed

text \<open>
  C5.  Verifying an address any number of times, in any worlds, adds at most one row for it
  over the four data files (Valid, Invalid, Risky, Custom), whether the engine's
  \<open>verify_email\<close> is called directly or through the service; and when the address is
  already in one of them, nothing is written to any file: \<open>verify_email\<close> then returns at
  its first check, before \<open>save_result\<close> is reached.
\<close>

theorem verify_adds_at_most_one_row:
  "rows_for a (verify_repeatedly Es a s) \<le> rows_for a s + 1 \<and>
   (rows_for a s = 0 \<longrightarrow> rows_for a (verify_repeatedly Es a s) \<le> 1) \<and>
   (check_email_in_data a s \<noteq> None \<longrightarrow>
      data_files (verify_repeatedly Es a s) = data_files s \<and>
      csv_files (verify_repeatedly Es a s) = csv_files s) \<and>
   rows_for a (login_verifier (service_verify_repeatedly cs a svc))
     \<le> rows_for a (login_verifier svc) + 1"
  using verify_repeatedly_rows [of a Es s] verify_repeatedly_present [of a s Es]
        service_verify_repeatedly_rows [of a cs svc]
  by auto

theorem verify_adds_at_most_one_row_witness:
  "rows_for ''a@example.com'' (engine_init 10 60) = 0 \<and>
   rows_for ''a@example.com''
     (verify_repeatedly [whitelist_env, whitelist_env, quiet_env] ''a@example.com''
        (engine_init 10 60)) = 1 \<and>
   check_email_in_data ''a@example.com'' engine_after_first \<noteq> None \<and>
   data_files (verify_repeatedly [quiet_env, whitelist_env] ''a@example.com'' engine_after_first)
     = data_files engine_after_first"
proof -
  have c: "check_email_in_data ''a@example.com'' engine_after_first \<noteq> None"
    by (simp add: engine_after_first_eq check_email_in_data_def categories_def)
  have "verify_repeatedly [whitelist_env, whitelist_env, quiet_env] ''a@example.com''
          (engine_init 10 60)
        = verify_repeatedly [whitelist_env, quiet_env] ''a@example.com'' engine_after_first"
    by (simp add: engine_after_first_def)
  also have "\<dots> = engine_after_first" using c by (rule verify_repeatedly_present)
  finally have e: "verify_repeatedly [whitelist_env, whitelist_env, quiet_env] ''a@example.com''
                     (engine_init 10 60) = engine_after_first" .
  have r0: "rows_for ''a@example.com'' (engine_init 10 60) = 0"
    by (simp add: rows_for_def engine_init_def)
  have r1: "rows_for ''a@example.com'' engine_after_first = 1"
    by (simp add: engine_after_first_eq rows_for_def categories_def)
  from verify_adds_at_most_one_row
         [of "''a@example.com''" "[whitelist_env, whitelist_env, quiet_env]" "engine_init 10 60"
             "[]"]
       verify_adds_at_most_one_row
         [of "''a@example.com''" "[quiet_env, whitelist_env]" engine_after_first "[]"]
       c e r0 r1
  show ?thesis by simp
qed

section \<open>Properties of the pre-checks\<close>

text \<open>
  C2 as stated fails.  After one verification of a whitelisted address both the result cache
  and the data files hold it; the cache entry has reason "Domain in whitelist", yet the next
  \<open>verify_email\<close> returns the answer of the data-file check, "Email found in valid list"
  with provider "cached": the data files are consulted before the cache.
\<close>

theorem cache_checked_second_counterexample:
  "check_email_in_data ''a@example.com'' engine_after_first = Some ''valid'' \<and>
   map_option reason (result_cache engine_after_first ''a@example.com'')
     = Some ''Domain in whitelist'' \<and>
   map_option provider (result_cache engine_after_first ''a@example.com'')
     = Some ''example.com'' \<and>
   map_sum id (map_option reason)
     (fst (verify_email whitelist_env ''a@example.com'' engine_after_first))
     = Inr (Some ''Email found in valid list'') \<and>
   map_sum id (map_option provider)
     (fst (verify_email whitelist_env ''a@example.com'' engine_after_first))
     = Inr (Some ''cached'')"
  by (simp add: engine_after_first_eq engine_eval)

lemma split_chr_nonempty [simp]: "split_chr c xs \<noteq> []"
  by (induction xs) (auto split: list.splits)

lemma split_chr_snoc:
  "x \<noteq> c \<Longrightarrow>
   split_chr c (xs @ [x]) = butlast (split_chr c xs) @ [last (split_chr c xs) @ [x]]"
proof (induction xs)
  case Nil
  then show ?case by simp
next
  case (Cons y ys)
  then show ?case
    by (cases "split_chr c ys") (auto split: list.splits)
qed

text \<open>
  An address that passes \<open>validate_format\<close> has exactly one \<open>@\<close>, so the unpacking of
  \<open>email.split('@')\<close> in \<open>verify_email\<close> cannot raise.
\<close>

lemma validate_format_split: "validate_format a \<Longrightarrow> \<exists>d. split_domain a = Inr d"
proof -
  assume v: "validate_format a"
  have p: "\<exists>d. split_domain b = Inr d" if "pattern_matches b" for b
    using that by (auto simp: pattern_matches_def split_domain_def split: list.splits)
  from v consider "pattern_matches a"
    | "a \<noteq> []" "last a = CHR 0x0A" "pattern_matches (butlast a)"
    by (auto simp: validate_format_def)
  then show ?thesis
  proof cases
    case 1
    then show ?thesis by (rule p)
  next
    case 2
    from 2(3) obtain l d where s: "split_chr CHR ''@'' (butlast a) = [l, d]"
      by (auto simp: pattern_matches_def split: list.splits)
    from 2(1) have "a = butlast a @ [last a]" by simp
    then have "split_chr CHR ''@'' a = split_chr CHR ''@'' (butlast a @ [CHR 0x0A])"
      using 2(2) by simp
    also have "\<dots> = [l, d @ [CHR 0x0A]]"
      using s by (simp add: split_chr_snoc)
    finally show ?thesis by (simp add: split_domain_def)
  qed
qed

text \<open>
  C2, as the code has it.  The engine's \<open>verify_email\<close> runs its pre-checks in the order:
  the per-verdict data files, then the result cache, then syntactic validation, then the
  blacklist, then the whitelist.  The first that fires determines the returned result, and
  no probe runs: for the first two the engine state is unchanged, for the others the trace
  is.
\<close>

theorem prechecks_in_code_order:
  "(\<forall>c. check_email_in_data a s = Some c \<longrightarrow>
      verify_email E a s
        = (Inr (Some (mk_result a c (''Email found in '' @ c @ '' list'') ''cached'' None s)), s)) \<and>
   (\<forall>r. check_email_in_data a s = None \<and> result_cache s a = Some r \<longrightarrow>
      verify_email E a s = (Inr (Some r), s)) \<and>
   (check_email_in_data a s = None \<and> result_cache s a = None \<and> \<not> validate_format a \<longrightarrow>
      fst (verify_email E a s)
        = Inr (Some (mk_result a INVALID ''Invalid email format'' ''unknown'' None s)) \<and>
      trace (snd (verify_email E a s)) = trace s) \<and>
   (\<forall>d. check_email_in_data a s = None \<and> result_cache s a = None \<and> validate_format a \<and>
        split_domain a = Inr d \<and> d \<in> set (blacklisted_domains E) \<longrightarrow>
      fst (verify_email E a s)
        = Inr (Some (mk_result a INVALID ''Domain is blacklisted'' d None s)) \<and>
      trace (snd (verify_email E a s)) = trace s) \<and>
   (\<forall>d. check_email_in_data a s = None \<and> result_cache s a = None \<and> validate_format a \<and>
        split_domain a = Inr d \<and> d \<notin> set (blacklisted_domains E) \<and>
        d \<in> set (skip_domains E) \<longrightarrow>
      fst (verify_email E a s)
        = Inr (Some (mk_result a VALID ''Domain in whitelist'' d None s)) \<and>
      trace (snd (verify_email E a s)) = trace s)"
proof -
  have fin: "fst (some_result (finish a (mk_result a c r p None s) s))
               = Inr (Some (mk_result a c r p None s)) \<and>
             trace (snd (some_result (finish a (mk_result a c r p None s) s))) = trace s"
    if "c \<in> set categories" for c r p
    using that
    by (simp add: some_result_def finish_def save_result_def add_email_to_data_def Let_def
                  mk_result_def split: prod.splits)
  have cats: "INVALID \<in> set categories" "VALID \<in> set categories"
    by (simp_all add: categories_def category_defs)
  show ?thesis
    using fin [OF cats(1)] fin [OF cats(2)]
    by (simp add: verify_email_def)
qed

theorem prechecks_in_code_order_witness:
  "check_email_in_data ''a@example.com'' engine_after_first = Some ''valid'' \<and>
   verify_email quiet_env ''a@example.com'' engine_after_first
     = (Inr (Some (mk_result ''a@example.com'' ''valid'' ''Email found in valid list'' ''cached''
                     None engine_after_first)), engine_after_first) \<and>
   check_email_in_data ''c@example.org'' cached_only_engine = None \<and>
   map_option reason (result_cache cached_only_engine ''c@example.org'')
     = Some ''Mailbox unavailable'' \<and>
   map_sum id (map_option reason) (fst (verify_email quiet_env ''c@example.org'' cached_only_engine))
     = Inr (Some ''Mailbox unavailable'') \<and>
   \<not> validate_format ''foo@bar'' \<and>
   fst (verify_email quiet_env ''foo@bar'' (engine_init 10 60))
     = Inr (Some (mk_result ''foo@bar'' INVALID ''Invalid email format'' ''unknown'' None
                    (engine_init 10 60))) \<and>
   validate_format ''x@spam.example.net'' \<and>
   split_domain ''x@spam.example.net'' = Inr ''spam.example.net'' \<and>
   ''spam.example.net'' \<in> set (blacklisted_domains blacklist_env) \<and>
   fst (verify_email blacklist_env ''x@spam.example.net'' (engine_init 10 60))
     = Inr (Some (mk_result ''x@spam.example.net'' INVALID ''Domain is blacklisted''
                    ''spam.example.net'' None (engine_init 10 60))) \<and>
   validate_format ''a@example.com'' \<and>
   ''example.com'' \<notin> set (blacklisted_domains whitelist_env) \<and>
   ''example.com'' \<in> set (skip_domains whitelist_env) \<and>
   fst (verify_email whitelist_env ''a@example.com'' (engine_init 10 60))
     = Inr (Some (mk_result ''a@example.com'' VALID ''Domain in whitelist'' ''example.com'' None
                    (engine_init 10 60))) \<and>
   trace (snd (verify_email whitelist_env ''a@example.com'' (engine_init 10 60))) = []"
proof -
  have h1: "check_email_in_data ''a@example.com'' engine_after_first = Some ''valid''"
    by (simp add: engine_after_first_eq engine_eval)
  have h2: "check_email_in_data ''c@example.org'' cached_only_engine = None"
    "result_cache cached_only_engine ''c@example.org''
       = Some \<lparr>email = ''c@example.org'', category = ''risky'', reason = ''Mailbox unavailable'',
               provider = ''example.org'', details = None, timestamp = 0\<rparr>"
    by (simp_all add: cached_only_engine_def engine_eval)
  have h0: "check_email_in_data b (engine_init 10 60) = None"
    "result_cache (engine_init 10 60) b = None" for b
    by (simp_all add: engine_eval)
  have h3: "\<not> validate_format ''foo@bar''" by (simp add: engine_eval)
  have h4: "validate_format ''x@spam.example.net''"
    "split_domain ''x@spam.example.net'' = Inr ''spam.example.net''"
    "''spam.example.net'' \<in> set (blacklisted_domains blacklist_env)"
    by (simp_all add: engine_eval)
  have h5: "validate_format ''a@example.com''"
    "split_domain ''a@example.com'' = Inr ''example.com''"
    "''example.com'' \<notin> set (blacklisted_domains whitelist_env)"
    "''example.com'' \<in> set (skip_domains whitelist_env)"
    by (simp_all add: engine_eval)
  have t0: "trace (engine_init 10 60) = []" by (simp add: engine_init_def)
  from prechecks_in_code_order [of "''a@example.com''" engine_after_first quiet_env]
       prechecks_in_code_order [of "''c@example.org''" cached_only_engine quiet_env]
       prechecks_in_code_order [of "''foo@bar''" "engine_init 10 60" quiet_env]
       prechecks_in_code_order [of "''x@spam.example.net''" "engine_init 10 60" blacklist_env]
       prechecks_in_code_order [of "''a@example.com''" "engine_init 10 60" whitelist_env]
       h1 h2 h0 h3 h4 h5 t0
  show ?thesis by simp
qed

section \<open>Properties of task status\<close>

text \<open>
  C10.  \<open>get_task_status\<close> is total: it never raises; for an unknown task id it returns
  \<open>None\<close>; and for a known task with \<open>total = 0\<close> the reported progress is 0, the division
  being guarded.
\<close>

theorem get_task_status_total:
  "(verification_tasks svc tid = None \<longrightarrow> get_task_status tid svc = Inr None) \<and>
   (\<forall>e. get_task_status tid svc \<noteq> Inl e) \<and>
   (\<forall>t. verification_tasks svc tid = Some t \<and> task_total t = 0 \<longrightarrow>
        (\<exists>r. get_task_status tid svc = Inr (Some r) \<and> sr_progress r = 0))"
  by (auto simp: get_task_status_def truediv_def split: option.splits)

theorem get_task_status_total_witness:
  "verification_tasks (start_batch_verification ''t1'' [] ''auto'' (service_init False)) ''t0''
     = None \<and>
   get_task_status ''t0'' (start_batch_verification ''t1'' [] ''auto'' (service_init False))
     = Inr None \<and>
   (\<exists>t. verification_tasks (start_batch_verification ''t1'' [] ''auto'' (service_init False)) ''t1''
          = Some t \<and> task_total t = 0) \<and>
   (\<exists>r. get_task_status ''t1'' (start_batch_verification ''t1'' [] ''auto'' (service_init False))
          = Inr (Some r) \<and> sr_progress r = 0)"
  using get_task_status_total
          [of "start_batch_verification ''t1'' [] ''auto'' (service_init False)" "''t0''"]
        get_task_status_total
          [of "start_batch_verification ''t1'' [] ''auto'' (service_init False)" "''t1''"]
  by (simp add: start_batch_verification_def service_init_def)

section \<open>The engine repeats its verdict\<close>

text \<open>
  A result the engine returns after its pre-checks is a result for the address that went
  through \<open>finish\<close>; the address is then in the data file of its verdict, and in no other.
\<close>

lemma finish_Inr: "finish a r m = (Inr r', s') \<Longrightarrow> r' = r"
  by (auto simp: finish_def Let_def split: prod.splits sum.splits)

lemma rf_finish:
  "probe_frame s m \<Longrightarrow> email r = a \<Longrightarrow> finish a r m = (Inr r', s') \<Longrightarrow>
   returns_finished a s r' s'"
  using finish_Inr [of a r m r' s'] by (auto simp: returns_finished_def)

lemma rf_trans:
  "probe_frame s m \<Longrightarrow> returns_finished a m r s' \<Longrightarrow> returns_finished a s r s'"
  by (auto simp: returns_finished_def dest: probe_frame_trans)

lemma returning_Returned:
  "returning z = (Inr (Returned r), s') \<Longrightarrow> z = (Inr r, s')"
  by (cases z) (auto simp: returning_def split: sum.splits)

lemma returning_not_Exhausted: "returning z \<noteq> (Inr (Exhausted l), s')"
  by (cases z) (auto simp: returning_def split: sum.splits)

lemma verify_login_email:
  "verify_login E a p u b s = (Inr r, s1) \<Longrightarrow> email r = a"
  by (auto simp: verify_login_def Let_def mk_result_def split: sum.splits)

lemma verify_email_smtp_email:
  "verify_email_smtp E a s = (Inr r, s1) \<Longrightarrow> email r = a"
  by (auto simp: verify_email_smtp_def Let_def mk_result_def split: sum.splits prod.splits if_splits)

lemma verify_microsoft_api_email:
  "verify_microsoft_api E a s = (Inr (Some r), s1) \<Longrightarrow> email r = a"
  by (auto simp: verify_microsoft_api_def Let_def mk_result_def
           split: sum.splits prod.splits if_splits option.splits)

lemma accepted_result_email [simp]: "email (accepted_result a p r s) = a"
  by (simp add: accepted_result_def mk_result_def)

lemma mk_result_email [simp]: "email (mk_result a c r p d s) = a"
  by (simp add: mk_result_def)

lemma google_browser_loop_rf:
  "google_browser_loop E a p u bs l s = (x, s') \<Longrightarrow>
   (\<forall>r0. l = Some r0 \<longrightarrow> email r0 = a) \<Longrightarrow>
   (\<forall>r. x = Inr (Returned r) \<longrightarrow> returns_finished a s r s') \<and>
   (\<forall>r0. x = Inr (Exhausted (Some r0)) \<longrightarrow> email r0 = a)"
proof (induction bs arbitrary: l s)
  case Nil
  then show ?case by auto
next
  case (Cons b bs)
  obtain y s1 where v: "verify_login E a p u b s = (y, s1)"
    by (cases "verify_login E a p u b s")
  from verify_login_frame [of s E a p u b] v have f: "probe_frame s s1" by simp
  show ?case
  proof (cases y)
    case (Inl e)
    with Cons.prems v show ?thesis by auto
  next
    case (Inr result)
    from verify_login_email v Inr have em: "email result = a" by blast
    consider (def) "definitive result"
      | (acc) "\<not> definitive result" "category result = RISKY \<and> reason result = could_not_determine"
      | (go) "\<not> definitive result" "\<not> (category result = RISKY \<and> reason result = could_not_determine)"
      by blast
    then show ?thesis
    proof cases
      case def
      with Cons.prems(1) v Inr have "returning (finish a result s1) = (x, s')" by simp
      with f em show ?thesis
        by (auto dest!: returning_Returned intro: rf_finish simp: returning_not_Exhausted)
    next
      case acc
      with Cons.prems(1) v Inr
      have "returning (finish a (accepted_result a p result s1) s1) = (x, s')" by simp
      moreover have "\<And>r. finish a (accepted_result a p result s1) s1 = (Inr r, s')
                       \<Longrightarrow> returns_finished a s r s'"
        using rf_finish [OF f, of "accepted_result a p result s1" a] by simp
      ultimately show ?thesis
        by (auto dest!: returning_Returned simp: returning_not_Exhausted)
    next
      case go
      with Cons.prems(1) v Inr
      have "google_browser_loop E a p u bs (Some result) s1 = (x, s')" by auto
      from Cons.IH [OF this] em f show ?thesis
        by (auto intro: rf_trans)
    qed
  qed
qed

lemma rf_finish_returning:
  "probe_frame s m \<Longrightarrow> email r0 = a \<Longrightarrow> returning (finish a r0 m) = (x, s') \<Longrightarrow>
   (\<forall>r. x = Inr (Returned r) \<longrightarrow> returns_finished a s r s') \<and>
   (\<forall>l. x \<noteq> Inr (Exhausted l))"
  by (auto dest!: returning_Returned intro: rf_finish simp: returning_not_Exhausted)

lemma microsoft_browser_loop_rf:
  "microsoft_browser_loop E a p u all bs l s = (x, s') \<Longrightarrow>
   (\<forall>r0. l = Some r0 \<longrightarrow> email r0 = a) \<Longrightarrow>
   (\<forall>r. x = Inr (Returned r) \<longrightarrow> returns_finished a s r s') \<and>
   (\<forall>r0. x = Inr (Exhausted (Some r0)) \<longrightarrow> email r0 = a)"
proof (induction bs arbitrary: l s)
  case Nil
  then show ?case by auto
next
  case (Cons b bs)
  obtain y s1 where v: "verify_login E a p u b s = (y, s1)"
    by (cases "verify_login E a p u b s")
  from verify_login_frame [of s E a p u b] v have f: "probe_frame s s1" by simp
  show ?case
  proof (cases y)
    case (Inl e)
    with Cons.prems v show ?thesis by auto
  next
    case (Inr result)
    from verify_login_email v Inr have em: "email result = a" by blast
    let ?fb = "(category result = RISKY \<and> reason result = could_not_determine) \<or>
               (category result = CUSTOM \<and> reason result = ''Redirected to custom login page'')"
    let ?b2 = "all ! ((py_index b all + 1) mod length all)"
    consider (def) "definitive result"
      | (fb) "\<not> definitive result" ?fb
      | (go) "\<not> definitive result" "\<not> ?fb"
      by blast
    then show ?thesis
    proof cases
      case def
      with Cons.prems(1) v Inr have "returning (finish a result s1) = (x, s')" by simp
      from rf_finish_returning [OF f em this] show ?thesis by auto
    next
      case go
      with Cons.prems(1) v Inr
      have "microsoft_browser_loop E a p u all bs (Some result) s1 = (x, s')" by auto
      from Cons.IH [OF this] em f show ?thesis by (auto intro: rf_trans)
    next
      case fb
      obtain z s2 where w: "verify_login E a p ''https://login.live.com'' ?b2 s1 = (z, s2)"
        by (cases "verify_login E a p ''https://login.live.com'' ?b2 s1")
      from verify_login_frame [of s1 E a p "''https://login.live.com''" ?b2] w f
      have f2: "probe_frame s s2" by (auto dest: probe_frame_trans)
      show ?thesis
      proof (cases z)
        case (Inl e)
        with Cons.prems(1) v Inr fb w show ?thesis by auto
      next
        case dr: (Inr direct_result)
        from verify_login_email w dr have em2: "email direct_result = a" by blast
        consider (ddef) "definitive direct_result"
          | (dacc) "\<not> definitive direct_result"
              "category direct_result = RISKY \<and> reason direct_result = could_not_determine"
          | (dgo) "\<not> definitive direct_result"
              "\<not> (category direct_result = RISKY \<and> reason direct_result = could_not_determine)"
          by blast
        then show ?thesis
        proof cases
          case ddef
          with Cons.prems(1) v Inr fb w dr
          have "returning (finish a direct_result s2) = (x, s')" by auto
          from rf_finish_returning [OF f2 em2 this] show ?thesis by auto
        next
          case dacc
          with Cons.prems(1) v Inr fb w dr
          have "returning (finish a (accepted_result a p direct_result s2) s2) = (x, s')" by auto
          from rf_finish_returning [OF f2 accepted_result_email this] show ?thesis by auto
        next
          case dgo
          with Cons.prems(1) v Inr fb w dr
          have "microsoft_browser_loop E a p u all bs (Some result) s2 = (x, s')" by auto
          from Cons.IH [OF this] em f2 show ?thesis by (auto intro: rf_trans)
        qed
      qed
    qed
  qed
qed

lemma finish_last_rf:
  "probe_frame s m \<Longrightarrow> (\<forall>r0. l = Some r0 \<longrightarrow> email r0 = a) \<Longrightarrow>
   finish_last a l m = (Inr r, s') \<Longrightarrow> returns_finished a s r s'"
  by (cases l) (auto simp: finish_last_def intro: rf_finish)

lemma smtp_then_last_rf:
  assumes "smtp_then_last E a l s = (Inr r, s')" and "\<forall>r0. l = Some r0 \<longrightarrow> email r0 = a"
  shows "returns_finished a s r s'"
proof -
  obtain y s1 where v: "verify_email_smtp E a s = (y, s1)"
    by (cases "verify_email_smtp E a s")
  from verify_email_smtp_frame [of s E a] v have f: "probe_frame s s1" by simp
  show ?thesis
  proof (cases y)
    case (Inl e)
    with assms v show ?thesis by (simp add: smtp_then_last_def)
  next
    case (Inr smtp_res)
    from verify_email_smtp_email v Inr have em: "email smtp_res = a" by blast
    show ?thesis
    proof (cases "definitive smtp_res")
      case True
      with assms v Inr have "finish a smtp_res s1 = (Inr r, s')"
        by (simp add: smtp_then_last_def)
      from rf_finish [OF f em this] show ?thesis .
    next
      case False
      with assms v Inr have "finish_last a l s1 = (Inr r, s')"
        by (simp add: smtp_then_last_def)
      from finish_last_rf [OF f assms(2) this] show ?thesis .
    qed
  qed
qed

lemma other_browser_loop_rf:
  "other_browser_loop E a p u lb bs s = (Inr (Some r), s') \<Longrightarrow> returns_finished a s r s'"
proof (induction bs arbitrary: s)
  case Nil
  then show ?case by simp
next
  case (Cons b bs)
  obtain y s1 where v: "verify_login E a p u b s = (y, s1)"
    by (cases "verify_login E a p u b s")
  from verify_login_frame [of s E a p u b] v have f: "probe_frame s s1" by simp
  show ?case
  proof (cases y)
    case (Inl e)
    with Cons.prems v show ?thesis by auto
  next
    case (Inr result)
    from verify_login_email v Inr have em: "email result = a" by blast
    consider (def) "definitive result"
      | (smtp) "\<not> definitive result" "b = lb \<and> category result \<in> set [RISKY, CUSTOM]"
      | (go) "\<not> definitive result" "\<not> (b = lb \<and> category result \<in> set [RISKY, CUSTOM])"
      by blast
    then show ?thesis
    proof cases
      case def
      with Cons.prems v Inr have "finish a result s1 = (Inr r, s')"
        by (auto split: prod.splits sum.splits)
      from rf_finish [OF f em this] show ?thesis .
    next
      case go
      with Cons.prems v Inr have "other_browser_loop E a p u lb bs s1 = (Inr (Some r), s')"
        by auto
      from Cons.IH [OF this] f show ?thesis by (rule rf_trans [rotated])
    next
      case smtp
      obtain z s2 where w: "verify_email_smtp E a s1 = (z, s2)"
        by (cases "verify_email_smtp E a s1")
      from verify_email_smtp_frame [of s1 E a] w f have f2: "probe_frame s s2"
        by (auto dest: probe_frame_trans)
      show ?thesis
      proof (cases z)
        case (Inl e)
        with Cons.prems v Inr smtp w show ?thesis by auto
      next
        case sr: (Inr smtp_res)
        from verify_email_smtp_email w sr have em2: "email smtp_res = a" by blast
        let ?R = "if definitive smtp_res then smtp_res else result"
        from em em2 have emR: "email ?R = a" by simp
        from Cons.prems v Inr smtp w sr have "finish a ?R s2 = (Inr r, s')"
          by (auto split: prod.splits sum.splits)
        from rf_finish [OF f2 emR this] show ?thesis .
      qed
    qed
  qed
qed

lemma verify_gmail_email_rf:
  assumes "verify_gmail_email E a p u s = (Inr r, s')"
  shows "returns_finished a s r s'"
proof -
  obtain y s1 where v: "verify_email_smtp E a s = (y, s1)" by (cases "verify_email_smtp E a s")
  from verify_email_smtp_frame [of s E a] v have f: "probe_frame s s1" by simp
  show ?thesis
  proof (cases y)
    case (Inl e)
    with assms v show ?thesis by (simp add: verify_gmail_email_def)
  next
    case (Inr smtp_res)
    from verify_email_smtp_email v Inr have em: "email smtp_res = a" by blast
    show ?thesis
    proof (cases "definitive smtp_res")
      case True
      with assms v Inr have "finish a smtp_res s1 = (Inr r, s')"
        by (simp add: verify_gmail_email_def)
      from rf_finish [OF f em this] show ?thesis .
    next
      case False
      obtain x s2 where l: "google_browser_loop E a p u (browsers E) None s1 = (x, s2)"
        by (cases "google_browser_loop E a p u (browsers E) None s1")
      from google_browser_loop_rf [OF l]
      have p: "\<And>r. x = Inr (Returned r) \<Longrightarrow> returns_finished a s1 r s2"
        "\<And>r0. x = Inr (Exhausted (Some r0)) \<Longrightarrow> email r0 = a" by auto
      from google_browser_loop_post [OF l]
      have q: "\<And>l'. x = Inr (Exhausted l') \<Longrightarrow> probe_frame s1 s2" by auto
      show ?thesis
      proof (cases x)
        case (Inl e)
        with assms v Inr False l show ?thesis by (simp add: verify_gmail_email_def)
      next
        case x: (Inr le)
        show ?thesis
        proof (cases le)
          case (Returned r1)
          with assms v Inr False l x have "r1 = r" "s2 = s'"
            by (simp_all add: verify_gmail_email_def)
          with p(1) x Returned f show ?thesis by (auto intro: rf_trans)
        next
          case (Exhausted l')
          with q x f have f2: "probe_frame s s2" by (auto dest: probe_frame_trans)
          from p(2) x Exhausted have e: "\<forall>r0. l' = Some r0 \<longrightarrow> email r0 = a" by simp
          from assms v Inr False l x Exhausted have "finish_last a l' s2 = (Inr r, s')"
            by (simp add: verify_gmail_email_def)
          from finish_last_rf [OF f2 e this] show ?thesis .
        qed
      qed
    qed
  qed
qed

lemma after_browser_loop_rf:
  assumes p: "\<And>r. x = Inr (Returned r) \<Longrightarrow> returns_finished a s1 r s2"
      "\<And>r0. x = Inr (Exhausted (Some r0)) \<Longrightarrow> email r0 = a"
      "\<And>l'. x = Inr (Exhausted l') \<Longrightarrow> probe_frame s1 s2"
    and f: "probe_frame s s1"
    and run: "(case (x, s2) of
                 (Inl e, s3) \<Rightarrow> (Inl e, s3)
               | (Inr (Returned r), s3) \<Rightarrow> (Inr r, s3)
               | (Inr (Exhausted last_result), s3) \<Rightarrow> smtp_then_last E a last_result s3)
              = (Inr r, s')"
  shows "returns_finished a s r s'"
proof (cases x)
  case (Inl e)
  with run show ?thesis by simp
next
  case x: (Inr le)
  show ?thesis
  proof (cases le)
    case (Returned r1)
    with run x have "r1 = r" "s2 = s'" by simp_all
    with p(1) x Returned f show ?thesis by (auto intro: rf_trans)
  next
    case (Exhausted l')
    with p(3) x f have f2: "probe_frame s s2" by (auto dest: probe_frame_trans)
    from p(2) x Exhausted have e: "\<forall>r0. l' = Some r0 \<longrightarrow> email r0 = a" by simp
    from run x Exhausted have "smtp_then_last E a l' s2 = (Inr r, s')" by simp
    from rf_trans [OF f2 smtp_then_last_rf [OF this e]] show ?thesis .
  qed
qed

lemma verify_custom_google_email_rf:
  assumes "verify_custom_google_email E a p u s = (Inr r, s')"
  shows "returns_finished a s r s'"
proof -
  obtain x s2 where l: "google_browser_loop E a p u (browsers E) None s = (x, s2)"
    by (cases "google_browser_loop E a p u (browsers E) None s")
  from google_browser_loop_rf [OF l]
  have p: "\<And>r. x = Inr (Returned r) \<Longrightarrow> returns_finished a s r s2"
    "\<And>r0. x = Inr (Exhausted (Some r0)) \<Longrightarrow> email r0 = a" by auto
  from google_browser_loop_post [OF l]
  have q: "\<And>l'. x = Inr (Exhausted l') \<Longrightarrow> probe_frame s s2" by auto
  from assms l have
    "(case (x, s2) of
        (Inl e, s3) \<Rightarrow> (Inl e, s3)
      | (Inr (Returned r), s3) \<Rightarrow> (Inr r, s3)
      | (Inr (Exhausted last_result), s3) \<Rightarrow> smtp_then_last E a last_result s3) = (Inr r, s')"
    by (simp add: verify_custom_google_email_def)
  from after_browser_loop_rf [OF p q probe_frame_refl this] show ?thesis by simp
qed

lemma verify_microsoft_email_rf:
  assumes "verify_microsoft_email E a p u d s = (Inr r, s')"
  shows "returns_finished a s r s'"
proof -
  let ?c = "if microsoft_api E then check_microsoft_api_catch_all E d s else (Inr False, s)"
  obtain y s1 where c: "?c = (y, s1)" by (cases ?c)
  from check_microsoft_api_catch_all_frame [of s E d] c have f1: "probe_frame s s1"
    by (auto split: if_splits)
  show ?thesis
  proof (cases y)
    case (Inl e)
    with assms c show ?thesis by (simp add: verify_microsoft_email_def)
  next
    case (Inr is_api_catch_all)
    let ?v = "if \<not> is_api_catch_all then verify_microsoft_api E a s1 else (Inr None, s1)"
    obtain z s2 where v: "?v = (z, s2)" by (cases ?v)
    from verify_microsoft_api_frame [of s1 E a] v f1 have f2: "probe_frame s s2"
      by (auto split: if_splits dest: probe_frame_trans)
    show ?thesis
    proof (cases z)
      case (Inl e)
      with assms c Inr v show ?thesis by (simp add: verify_microsoft_email_def)
    next
      case z: (Inr api_result)
      let ?d = "case api_result of Some r \<Rightarrow> if definitive r then Some r else None | None \<Rightarrow> None"
      show ?thesis
      proof (cases ?d)
        case (Some r1)
        then have "api_result = Some r1" by (auto split: option.splits if_splits)
        with v z verify_microsoft_api_email [of E a s1 r1 s2] have em: "email r1 = a"
          by (auto split: if_splits)
        from assms c Inr v z Some have "finish a r1 s2 = (Inr r, s')"
          by (simp add: verify_microsoft_email_def)
        from rf_finish [OF f2 em this] show ?thesis .
      next
        case None
        obtain x s3 where l: "microsoft_browser_loop E a p u (browsers E) (browsers E) None s2
                                = (x, s3)"
          by (cases "microsoft_browser_loop E a p u (browsers E) (browsers E) None s2")
        from microsoft_browser_loop_rf [OF l]
        have p: "\<And>r. x = Inr (Returned r) \<Longrightarrow> returns_finished a s2 r s3"
          "\<And>r0. x = Inr (Exhausted (Some r0)) \<Longrightarrow> email r0 = a" by auto
        from microsoft_browser_loop_post [OF l]
        have q: "\<And>l'. x = Inr (Exhausted l') \<Longrightarrow> probe_frame s2 s3" by auto
        from assms c Inr v z None l have
          "(case (x, s3) of
              (Inl e, s4) \<Rightarrow> (Inl e, s4)
            | (Inr (Returned r), s4) \<Rightarrow> (Inr r, s4)
            | (Inr (Exhausted last_result), s4) \<Rightarrow> smtp_then_last E a last_result s4)
           = (Inr r, s')"
          by (simp add: verify_microsoft_email_def)
        from after_browser_loop_rf [OF p q f2 this] show ?thesis by simp
      qed
    qed
  qed
qed

lemma verify_custom_domain_email_rf:
  assumes "verify_custom_domain_email E a d mxs s = (Inr r, s')"
  shows "returns_finished a s r s'"
proof -
  obtain ca s1 where c: "check_catch_all E d s = (ca, s1)" by (cases "check_catch_all E d s")
  from check_catch_all_frame [of s E d] c have f: "probe_frame s s1" by simp
  obtain sr evs where v: "verify_smtp (smtp_session E) a mxs = (sr, evs)"
    by (cases "verify_smtp (smtp_session E) a mxs")
  let ?s2 = "s1\<lparr>trace := trace s1 @ evs\<rparr>"
  from f have f2: "probe_frame s ?s2" by (simp add: probe_frame_def)
  define R where "R =
    (if is_deliverable sr then
       (if ca then
          mk_result a RISKY ''Domain has catch-all configuration'' ''Custom''
            (Some [(''smtp_result'', PDict (smtp_result_dict sr)),
                   (''is_catch_all'', PBool True), (''mx_records'', PList mxs)]) ?s2
        else
          mk_result a VALID ''Email verified via SMTP'' ''Custom''
            (Some [(''smtp_result'', PDict (smtp_result_dict sr)),
                   (''mx_records'', PList mxs)]) ?s2)
     else if smtp_reason sr = Some ''Mailbox unavailable'' then
       mk_result a RISKY ''Mailbox unavailable (may not indicate invalid email)''
         ''Custom'' (Some [(''smtp_result'', PDict (smtp_result_dict sr)),
                           (''mx_records'', PList mxs)]) ?s2
     else
       mk_result a INVALID
         (''Email verification failed: '' @ opt_str (smtp_reason sr))
         ''Custom'' (Some [(''smtp_result'', PDict (smtp_result_dict sr)),
                           (''mx_records'', PList mxs)]) ?s2)"
  have em: "email R = a" by (simp add: R_def)
  from c v have "verify_custom_domain_email E a d mxs s = finish a R ?s2"
    by (simp add: verify_custom_domain_email_def Let_def R_def)
  with assms have "finish a R ?s2 = (Inr r, s')" by simp
  from rf_finish [OF f2 em this] show ?thesis .
qed

lemma verify_other_provider_email_rf:
  assumes "verify_other_provider_email E a p u s = (Inr (Some r), s')"
  shows "returns_finished a s r s'"
proof (cases "verification_loop_enabled E")
  case True
  show ?thesis
  proof (cases "browsers E")
    case Nil
    with True assms show ?thesis by (simp add: verify_other_provider_email_def)
  next
    case (Cons b bs)
    with True assms have "other_browser_loop E a p u (last (b # bs)) (b # bs) s
                            = (Inr (Some r), s')"
      by (simp only: verify_other_provider_email_def if_True list.case)
    then show ?thesis by (rule other_browser_loop_rf)
  qed
next
  case False
  show ?thesis
  proof (cases "browsers E")
    case Nil
    with False assms show ?thesis by (simp add: verify_other_provider_email_def)
  next
    case (Cons b bs)
    obtain y s1 where v: "verify_login E a p u b s = (y, s1)"
      by (cases "verify_login E a p u b s")
    from verify_login_frame [of s E a p u b] v have f: "probe_frame s s1" by simp
    show ?thesis
    proof (cases y)
      case (Inl e)
      with False Cons v assms show ?thesis by (simp add: verify_other_provider_email_def)
    next
      case (Inr result)
      from verify_login_email v Inr have em: "email result = a" by blast
      from False Cons v Inr assms have "finish a result s1 = (Inr r, s')"
        by (auto simp: verify_other_provider_email_def split: prod.splits sum.splits)
      from rf_finish [OF f em this] show ?thesis .
    qed
  qed
qed

lemma some_result_Some: "some_result z = (Inr (Some r), s') \<Longrightarrow> z = (Inr r, s')"
  by (cases z) (auto simp: some_result_def split: sum.splits)

lemma run_strategy_rf:
  assumes "run_strategy E a d mxs s = (Inr (Some r), s')"
  shows "returns_finished a s r s'"
proof -
  obtain y s1 where i: "identify_provider E a s = (y, s1)" by (cases "identify_provider E a s")
  from identify_provider_frame [of s E a] i have f: "probe_frame s s1" by simp
  show ?thesis
  proof (cases y)
    case (Inl e)
    with i assms show ?thesis by (simp add: run_strategy_def)
  next
    case (Inr pl)
    obtain p u where pl: "pl = (p, u)" by (cases pl)
    let ?r = "if p \<in> set microsoft_providers then
                some_result (verify_microsoft_email E a p (opt_str u) d s1)
              else if p = ''gmail.com'' then
                some_result (verify_gmail_email E a p (opt_str u) s1)
              else if p = ''customGoogle'' then
                some_result (verify_custom_google_email E a p (opt_str u) s1)
              else if p = ''custom'' \<or> u = None \<or> u = Some [] then
                some_result (verify_custom_domain_email E a d mxs s1)
              else verify_other_provider_email E a p (opt_str u) s1"
    from i Inr pl have "run_strategy E a d mxs s = ?r"
      by (simp only: run_strategy_def prod.case sum.case)
    with assms have r: "?r = (Inr (Some r), s')" by simp
    have "returns_finished a s1 r s'"
    proof (cases "p \<in> set microsoft_providers")
      case True
      with r show ?thesis
        by (auto dest!: some_result_Some intro: verify_microsoft_email_rf)
    next
      case nm: False
      show ?thesis
      proof (cases "p = ''gmail.com''")
        case True
        with nm r show ?thesis
          by (auto dest!: some_result_Some intro: verify_gmail_email_rf)
      next
        case ng: False
        show ?thesis
        proof (cases "p = ''customGoogle''")
          case True
          with nm ng r show ?thesis
            by (auto dest!: some_result_Some intro: verify_custom_google_email_rf)
        next
          case ncg: False
          show ?thesis
          proof (cases "p = ''custom'' \<or> u = None \<or> u = Some []")
            case True
            with nm ng ncg r
            have "some_result (verify_custom_domain_email E a d mxs s1) = (Inr (Some r), s')"
              by (simp del: set_simps)
            then show ?thesis
              by (auto dest!: some_result_Some intro: verify_custom_domain_email_rf)
          next
            case False
            with nm ng ncg r
            have "verify_other_provider_email E a p (opt_str u) s1 = (Inr (Some r), s')"
              by (simp del: set_simps)
            then show ?thesis by (rule verify_other_provider_email_rf)
          qed
        qed
      qed
    qed
    with f show ?thesis by (rule rf_trans)
  qed
qed

lemma verify_email_rf:
  assumes n: "check_email_in_data a s = None" "result_cache s a = None"
    and run: "verify_email E a s = (Inr (Some r), s')"
  shows "returns_finished a s r s'"
proof (cases "validate_format a")
  case False
  with n run have "finish a (mk_result a INVALID ''Invalid email format'' ''unknown'' None s) s
                     = (Inr r, s')"
    by (auto simp: verify_email_def dest!: some_result_Some)
  from rf_finish [OF probe_frame_refl mk_result_email this] show ?thesis .
next
  case True
  show ?thesis
  proof (cases "split_domain a")
    case (Inl e)
    with n True run show ?thesis by (simp add: verify_email_def)
  next
    case (Inr d)
    obtain mxs s1 where g: "get_mx_records E d s = (mxs, s1)" by (cases "get_mx_records E d s")
    from get_mx_frame [of s E d] g have f: "probe_frame s s1" by simp
    consider (bl) "d \<in> set (blacklisted_domains E)"
      | (wl) "d \<notin> set (blacklisted_domains E)" "d \<in> set (skip_domains E)"
      | (nomx) "d \<notin> set (blacklisted_domains E)" "d \<notin> set (skip_domains E)" "mxs = []"
      | (strat) "d \<notin> set (blacklisted_domains E)" "d \<notin> set (skip_domains E)" "mxs \<noteq> []"
      by blast
    then show ?thesis
    proof cases
      case bl
      with n True Inr run
      have "finish a (mk_result a INVALID ''Domain is blacklisted'' d None s) s = (Inr r, s')"
        by (auto simp: verify_email_def dest!: some_result_Some)
      from rf_finish [OF probe_frame_refl mk_result_email this] show ?thesis .
    next
      case wl
      with n True Inr run
      have "finish a (mk_result a VALID ''Domain in whitelist'' d None s) s = (Inr r, s')"
        by (auto simp: verify_email_def dest!: some_result_Some)
      from rf_finish [OF probe_frame_refl mk_result_email this] show ?thesis .
    next
      case nomx
      with n True Inr run g
      have "finish a (mk_result a INVALID ''Domain has no mail servers'' ''unknown'' None s1) s1
              = (Inr r, s')"
        by (auto simp: verify_email_def dest!: some_result_Some)
      from rf_finish [OF f mk_result_email this] show ?thesis .
    next
      case strat
      with n True Inr run g have "run_strategy E a d mxs s1 = (Inr (Some r), s')"
        by (simp add: verify_email_def)
      from rf_trans [OF f run_strategy_rf [OF this]] show ?thesis .
    qed
  qed
qed

lemma find_unique:
  "c \<in> set xs \<Longrightarrow> P c \<Longrightarrow> (\<forall>x \<in> set xs. x \<noteq> c \<longrightarrow> \<not> P x) \<Longrightarrow> find P xs = Some c"
  by (induction xs) auto

lemma returns_finished_data:
  assumes rf: "returns_finished a s r s'" and n: "check_email_in_data a s = None"
  shows "check_email_in_data a s' = Some (category r)"
proof -
  from rf obtain m where m: "probe_frame s m" "email r = a" "finish a r m = (Inr r, s')"
    by (auto simp: returns_finished_def)
  from m(3) have cat: "category r \<in> set categories"
    by (auto simp: finish_def save_result_def Let_def split: if_splits)
  from n m(1) have absent: "\<forall>c \<in> set categories. a \<notin> set (data_files m c)"
    by (auto simp: check_email_in_data_def find_None_iff probe_frame_def)
  with cat have "a \<notin> set (data_files m (category r))" by blast
  with m(2,3) cat have d: "data_files s' = (data_files m)(category r :=
                                            data_files m (category r) @ [a])"
    by (auto simp: finish_def save_result_def add_email_to_data_def Let_def py_lower_categories
             split: if_splits prod.splits)
  have "find (\<lambda>c. a \<in> set (data_files s' c)) categories = Some (category r)"
  proof (rule find_unique [OF cat])
    show "a \<in> set (data_files s' (category r))" using d by simp
    show "\<forall>x \<in> set categories. x \<noteq> category r \<longrightarrow> a \<notin> set (data_files s' x)"
      using d absent by simp
  qed
  then show ?thesis by (simp add: check_email_in_data_def)
qed

lemma engine_verdict_repeated:
  assumes "verify_email E a s = (Inr (Some r), s1)"
  shows "\<exists>r'. verify_email E' a s1 = (Inr (Some r'), s1) \<and> category r' = category r"
proof (cases "check_email_in_data a s")
  case (Some c)
  with assms have "s1 = s" "category r = c"
    by (auto simp: verify_email_def mk_result_def)
  with Some show ?thesis by (simp add: verify_email_def mk_result_def)
next
  case None
  show ?thesis
  proof (cases "result_cache s a")
    case (Some r0)
    with None assms have "s1 = s" "r = r0" by (auto simp: verify_email_def)
    with None Some show ?thesis by (simp add: verify_email_def)
  next
    case n2: None
    from returns_finished_data [OF verify_email_rf [OF None n2 assms] None]
    show ?thesis by (simp add: verify_email_def mk_result_def)
  qed
qed

section \<open>Properties of the verifier service\<close>

lemma service_after_first_cache:
  "service_cache service_after_first =
     [(''a@example.com'',
       \<lparr>email = ''a@example.com'', category = ''valid'', reason = ''Domain in whitelist'',
        provider = ''example.com'',
        details = Some [(''method'', PStr ''login''), (''verification_time'', PInt 0)],
        timestamp = 0\<rparr>)]"
  by (simp add: service_after_first_def service_eval engine_eval)

lemma evict_lookup:
  "map_of (evict n c) a = Some r \<Longrightarrow> map_of c a = Some r"
proof (induction n arbitrary: c)
  case 0
  then show ?case by simp
next
  case (Suc n)
  show ?case
  proof (cases c)
    case Nil
    with Suc.prems have "map_of (evict n []) a = Some r" by simp
    from Suc.IH [OF this] show ?thesis by simp
  next
    case (Cons p rest)
    obtain k v where p: "p = (k, v)" by (cases p)
    from Suc.prems Cons p have "map_of (evict n (AList.delete k c)) a = Some r" by simp
    from Suc.IH [OF this] show ?thesis
      by (simp add: delete_conv' split: if_splits)
  qed
qed

lemma add_to_cache_other:
  "a \<noteq> b \<Longrightarrow> map_of (add_to_cache b res c) a = Some r \<Longrightarrow> map_of c a = Some r"
  by (auto simp: add_to_cache_def update_conv' dest: evict_lookup split: if_splits)

lemma add_to_cache_same: "map_of (add_to_cache b res c) b = Some res"
  by (simp add: add_to_cache_def update_conv')

lemma use_login_verifier_cache:
  "service_cache (snd (use_login_verifier E b svc)) = service_cache svc"
  by (simp add: use_login_verifier_def Let_def split: prod.splits sum.splits option.splits)

lemma set_detail_fields:
  "email (set_detail k v r) = email r" "category (set_detail k v r) = category r"
  "reason (set_detail k v r) = reason r" "provider (set_detail k v r) = provider r"
  "timestamp (set_detail k v r) = timestamp r"
  "k' \<noteq> k \<Longrightarrow> map_of (details_dict (set_detail k v r)) k' = map_of (details_dict r) k'"
  "map_of (details_dict (set_detail k v r)) k = Some v"
  by (simp_all add: set_detail_def details_dict_def update_conv')

text \<open>One call of the service and the cache entry of an address that is cached before and after.\<close>

lemma service_step_entry:
  assumes "map_of (service_cache svc) a = Some r"
    and "map_of (service_cache (snd (service_verify_email E b m svc))) a = Some r'"
  shows "(b = a \<and> r' = set_detail ''method'' (PStr m) r) \<or> (b \<noteq> a \<and> r' = r)"
proof (cases "map_of (service_cache svc) b")
  case (Some cached)
  with assms show ?thesis
    by (cases "b = a") (auto simp: service_verify_email_def Let_def update_conv')
next
  case None
  with assms(1) have ne: "a \<noteq> b" by auto
  let ?x = "if m = ''login'' \<or> m = ''auto'' then use_login_verifier E b svc
            else if m = ''smtp'' \<and> smtp_verifier svc
              then (Inl bounce_verifier_has_no_verify_email, svc)
            else use_login_verifier E b svc"
  have c: "service_cache (snd ?x) = service_cache svc"
    by (simp add: use_login_verifier_cache)
  obtain out svc1 where x: "?x = (out, svc1)" by (cases ?x)
  with c have c1: "service_cache svc1 = service_cache svc" by simp
  show ?thesis
  proof (cases out)
    case (Inl e)
    with None x c1 assms ne show ?thesis
      by (simp add: service_verify_email_def)
  next
    case (Inr res)
    with None x assms(2) have "map_of (add_to_cache b res (service_cache svc1)) a = Some r'"
      by (simp add: service_verify_email_def)
    from add_to_cache_other [OF ne this] c1 assms(1) ne show ?thesis by simp
  qed
qed

text \<open>
  What a call of the service's \<open>verify_email\<close>, for any address and method, leaves alone
  in a result that stays in the service's cache: its address, verdict, reason, provider and
  timestamp, and every entry of its details other than \<open>method\<close>.
\<close>

lemma cached_result_fields_kept:
  assumes "map_of (service_cache svc) a = Some r"
    and "map_of (service_cache (snd (service_verify_email E b m svc))) a = Some r'"
  shows "email r' = email r \<and> category r' = category r \<and> reason r' = reason r \<and>
         provider r' = provider r \<and> timestamp r' = timestamp r \<and>
         (\<forall>k. k \<noteq> ''method'' \<longrightarrow> map_of (details_dict r') k = map_of (details_dict r) k)"
  using service_step_entry [OF assms] by (auto simp: set_detail_fields)

text \<open>
  C9 at a failing input.  The first call for an address, with method \<open>auto\<close>, runs the
  login verifier and caches the result with \<open>details.method = "login"\<close>, the method used.
  A second call for the same address, with method \<open>smtp\<close>, hits the cache: it verifies
  nothing (the engine's trace is as before) and overwrites \<open>details.method\<close> of the cached
  result with \<open>"smtp"\<close>.  A field of a result produced earlier is modified, and it now
  names a method that was not used.  The assignment stands under the comment
  "Add method to result details if not present".
\<close>

theorem cache_hit_overwrites_method:
  "map_option details (map_of (service_cache service_after_first) ''a@example.com'')
     = Some (Some [(''method'', PStr ''login''), (''verification_time'', PInt 0)]) \<and>
   map_option details
     (map_of (service_cache (snd (service_verify_email whitelist_env ''a@example.com'' ''smtp''
                                    service_after_first))) ''a@example.com'')
     = Some (Some [(''method'', PStr ''smtp''), (''verification_time'', PInt 0)]) \<and>
   trace (login_verifier (snd (service_verify_email whitelist_env ''a@example.com'' ''smtp''
                                 service_after_first)))
     = trace (login_verifier service_after_first)"
  by (simp add: service_after_first_cache service_verify_email_def set_detail_def
                details_dict_def Let_def)

lemma response_dict_category: "map_of (response_dict r m) ''category'' = Some (PStr (category r))"
  by (simp add: response_dict_def)

lemma service_call_caches:
  assumes "service_verify_email E a m svc = (Inr d, svc1)"
  shows "\<exists>r. map_of (service_cache svc1) a = Some r \<and>
             map_of d ''category'' = Some (PStr (category r))"
proof (cases "map_of (service_cache svc) a")
  case (Some cached)
  with assms show ?thesis
    by (auto simp: service_verify_email_def Let_def update_conv' response_dict_category)
next
  case None
  with assms show ?thesis
    by (auto simp: service_verify_email_def add_to_cache_same response_dict_category
             split: prod.splits sum.splits)
qed

lemma entry_lives_category:
  "map_of (service_cache svc) a = Some r \<Longrightarrow> entry_lives a calls svc \<Longrightarrow>
   \<exists>r'. map_of (service_cache (run_calls calls svc)) a = Some r' \<and> category r' = category r"
proof (induction calls arbitrary: svc r)
  case Nil
  then show ?case by simp
next
  case (Cons c cs)
  obtain E b m where c: "c = (E, b, m)" by (cases c)
  let ?svc1 = "snd (service_verify_email E b m svc)"
  from Cons.prems(2) c have l: "entry_lives a cs ?svc1" by simp
  then have "map_of (service_cache ?svc1) a \<noteq> None" by (cases cs) auto
  then obtain r1 where r1: "map_of (service_cache ?svc1) a = Some r1" by auto
  from service_step_entry [OF Cons.prems(1) r1] have "category r1 = category r"
    by (auto simp: set_detail_fields)
  with Cons.IH [OF r1 l] c show ?case by simp
qed

lemma service_hit:
  assumes "map_of (service_cache svc) a = Some r"
  shows "\<exists>svc'. service_verify_email E a m svc
           = (Inr (response_dict (set_detail ''method'' (PStr m) r) m), svc') \<and>
         login_verifier svc' = login_verifier svc"
  using assms by (simp add: service_verify_email_def Let_def)

lemma service_verdict_repeated:
  assumes first: "service_verify_email E a m svc = (Inr d, svc1)"
    and lives: "entry_lives a calls svc1"
  shows "\<exists>d' svc2. service_verify_email E' a m' (run_calls calls svc1) = (Inr d', svc2) \<and>
           map_of d' ''category'' = map_of d ''category'' \<and>
           trace (login_verifier svc2) = trace (login_verifier (run_calls calls svc1)) \<and>
           rate_limiter (login_verifier svc2) = rate_limiter (login_verifier (run_calls calls svc1)) \<and>
           data_files (login_verifier svc2) = data_files (login_verifier (run_calls calls svc1)) \<and>
           csv_files (login_verifier svc2) = csv_files (login_verifier (run_calls calls svc1))"
proof -
  from service_call_caches [OF first] obtain r where
    r: "map_of (service_cache svc1) a = Some r" "map_of d ''category'' = Some (PStr (category r))"
    by blast
  from entry_lives_category [OF r(1) lives] obtain r' where
    r': "map_of (service_cache (run_calls calls svc1)) a = Some r'" "category r' = category r"
    by blast
  from service_hit [OF r'(1), of E' m'] r' r show ?thesis
    by (auto simp: response_dict_category set_detail_fields)
qed

text \<open>
  C4.  If the service's \<open>verify_email\<close> returned a verdict for an address, then after any
  further calls during which the address stays in the service's cache, \<open>verify_email\<close>
  for that address returns the same verdict, and the engine's trace, limiter and files are
  as before the call: no limiter check, DNS lookup, SMTP session, HTTP request or browser
  session took place.  The engine by itself does the same: if its \<open>verify_email\<close> returned
  a result, the next call for the address returns a result of the same verdict and leaves
  the whole engine state, trace included, as it was.
\<close>

theorem cached_verdict_is_repeated:
  "(service_verify_email E a m svc = (Inr d, svc1) \<and> entry_lives a calls svc1 \<longrightarrow>
      (\<exists>d' svc2. service_verify_email E' a m' (run_calls calls svc1) = (Inr d', svc2) \<and>
         map_of d' ''category'' = map_of d ''category'' \<and>
         trace (login_verifier svc2) = trace (login_verifier (run_calls calls svc1)) \<and>
         rate_limiter (login_verifier svc2)
           = rate_limiter (login_verifier (run_calls calls svc1)) \<and>
         data_files (login_verifier svc2) = data_files (login_verifier (run_calls calls svc1)) \<and>
         csv_files (login_verifier svc2) = csv_files (login_verifier (run_calls calls svc1)))) \<and>
   (verify_email E a s = (Inr (Some r), s1) \<longrightarrow>
      (\<exists>r'. verify_email E' a s1 = (Inr (Some r'), s1) \<and> category r' = category r))"
  using service_verdict_repeated [of E a m svc d svc1 calls E' m']
        engine_verdict_repeated [of E a s r s1 E']
  by blast

theorem cached_verdict_is_repeated_witness:
  "\<exists>d d' svc2 r r'.
     service_verify_email whitelist_env ''a@example.com'' ''auto'' (service_init False)
       = (Inr d, service_after_first) \<and>
     entry_lives ''a@example.com'' [(whitelist_env, ''b@test.com'', ''auto'')] service_after_first \<and>
     service_verify_email quiet_env ''a@example.com'' ''login''
       (run_calls [(whitelist_env, ''b@test.com'', ''auto'')] service_after_first) = (Inr d', svc2) \<and>
     map_of d ''category'' = Some (PStr ''valid'') \<and>
     map_of d' ''category'' = Some (PStr ''valid'') \<and>
     trace (login_verifier svc2)
       = trace (login_verifier (run_calls [(whitelist_env, ''b@test.com'', ''auto'')]
                                  service_after_first)) \<and>
     verify_email whitelist_env ''a@example.com'' (engine_init 10 60)
       = (Inr (Some r), engine_after_first) \<and>
     verify_email quiet_env ''a@example.com'' engine_after_first
       = (Inr (Some r'), engine_after_first) \<and>
     category r = ''valid'' \<and> category r' = ''valid''"
proof -
  obtain x where x: "service_verify_email whitelist_env ''a@example.com'' ''auto''
                       (service_init False) = (x, service_after_first)"
    by (cases "service_verify_email whitelist_env ''a@example.com'' ''auto'' (service_init False)")
       (simp add: service_after_first_def)
  then obtain d where d: "x = Inr d" and dc: "map_of d ''category'' = Some (PStr ''valid'')"
    by (auto simp: service_eval engine_eval)
  have l: "entry_lives ''a@example.com'' [(whitelist_env, ''b@test.com'', ''auto'')]
             service_after_first"
    by (simp add: service_after_first_def service_eval engine_eval update_conv')
  obtain y where y: "verify_email whitelist_env ''a@example.com'' (engine_init 10 60)
                       = (y, engine_after_first)"
    by (cases "verify_email whitelist_env ''a@example.com'' (engine_init 10 60)")
       (simp add: engine_after_first_def)
  then obtain r where r: "y = Inr (Some r)" and rc: "category r = ''valid''"
    by (auto simp: engine_eval)
  from cached_verdict_is_repeated
         [of whitelist_env "''a@example.com''" "''auto''" "service_init False" d
             service_after_first "[(whitelist_env, ''b@test.com'', ''auto'')]" quiet_env
             "''login''" "engine_init 10 60" r engine_after_first]
       x d dc l y r rc
  show ?thesis by (simp, blast)
qed

text \<open>
  C1 at a failing input.  A batch of one address with method \<open>smtp\<close>, on a service with a
  configured bounce verifier: verifying the address raises, the task completes, and the
  address is given the category \<open>error\<close>, which is none of the four verdicts, with the bare
  exception text as its reason.
\<close>

theorem batch_error_is_not_risky:
  "map_option task_status
     (verification_tasks
        (snd (background_verification (\<lambda>_. quiet_env) ''t1''
                (start_batch_verification ''t1'' [''user@example.org''] ''smtp''
                   (service_init True)))) ''t1'') = Some ''completed'' \<and>
   map_option task_completed
     (verification_tasks
        (snd (background_verification (\<lambda>_. quiet_env) ''t1''
                (start_batch_verification ''t1'' [''user@example.org''] ''smtp''
                   (service_init True)))) ''t1'') = Some 1 \<and>
   map_option task_results
     (verification_tasks
        (snd (background_verification (\<lambda>_. quiet_env) ''t1''
                (start_batch_verification ''t1'' [''user@example.org''] ''smtp''
                   (service_init True)))) ''t1'')
     = Some [(''user@example.org'',
              error_dict ''user@example.org'' bounce_verifier_has_no_verify_email ''smtp'')] \<and>
   map_of (error_dict ''user@example.org'' bounce_verifier_has_no_verify_email ''smtp'')
     ''category'' = Some (PStr ''error'') \<and>
   ''error'' \<notin> set [VALID, INVALID, RISKY, CUSTOM] \<and>
   map_of (error_dict ''user@example.org'' bounce_verifier_has_no_verify_email ''smtp'') ''reason''
     = Some (PStr (str_exn bounce_verifier_has_no_verify_email))"
  by (simp add: service_verify_email_def service_init_def start_batch_verification_def
                background_verification_def update_task_def error_dict_def category_defs
                engine_init_def Let_def)

end
